theory Spec2Isabelle
  imports Complex_Main
begin

section \<open>The training engine of the neural-network visualizer\<close>

text \<open>
  A shallow embedding of \<^verbatim>\<open>src/neural-network.js\<close> (class \<^verbatim>\<open>NeuralNetwork\<close>).

  \<^bold>\<open>Numbers.\<close> The source computes with JavaScript doubles. Here a number is a \<^typ>\<open>real\<close>:
  the arithmetic is exact, and rounding, overflow to an infinity and NaN are not part of the
  model. \<^verbatim>\<open>Math.exp\<close>, \<^verbatim>\<open>Math.tanh\<close> and \<^verbatim>\<open>Math.sqrt\<close> are the real functions. One value is
  rounded as the source rounds it, because whether it is zero depends on the rounding: the
  loss that \<^verbatim>\<open>backward\<close> returns (see \<open>round_double\<close> below).

  \<^bold>\<open>Arrays.\<close> An array is a list. The engine's own computations never depend on aliasing:
  whatever is stored in a step or in \<^verbatim>\<open>previousWeights\<close> is copied first (\<^verbatim>\<open>slice\<close>, or a JSON
  round trip), so these operations are modelled on values. The accessor \<^verbatim>\<open>getNetworkData\<close>
  hands out references; for it the arrays live in an explicit store (last section of the
  definitions).

  \<^bold>\<open>Reads out of range.\<close> JavaScript reads \<^verbatim>\<open>undefined\<close> past the end of an array and goes on
  (mostly with NaN); it throws a \<^verbatim>\<open>TypeError\<close> when a property of \<^verbatim>\<open>undefined\<close> or \<^verbatim>\<open>null\<close>
  is read. Both are results of the model: \<open>Inl TypeError\<close> at a point where the source is
  sure to throw, and \<open>Inl UndefinedRead\<close> at a read that yields \<^verbatim>\<open>undefined\<close>, from where on
  (NaN arithmetic, or a \<^verbatim>\<open>TypeError\<close> later) the run is outside what real numbers can
  describe. A result \<open>Inr\<close> is a run in which every read was in range.
\<close>

datatype error = TypeError | UndefinedRead

subsection \<open>Configuration and state\<close>

text \<open>
  The constructor's \<^verbatim>\<open>config\<close> object. A field may be absent (\<open>None\<close>). The size fields are
  integers, as \<^verbatim>\<open>parseInt\<close> delivers them in the application.
\<close>

record config =
  cfg_inputSize :: "int option"
  cfg_hiddenLayers :: "int option"
  cfg_neuronsPerLayer :: "int option"
  cfg_activationFunction :: "string option"
  cfg_learningRate :: "real option"

text \<open>
  \<^verbatim>\<open>v || d\<close>: the default \<open>d\<close> replaces every falsy \<open>v\<close>, that is an absent field, the number
  \<open>0\<close> and the empty string.
\<close>

definition or_int :: "int option \<Rightarrow> int \<Rightarrow> int" where
  "or_int v d = (case v of None \<Rightarrow> d | Some x \<Rightarrow> if x = 0 then d else x)"

definition or_real :: "real option \<Rightarrow> real \<Rightarrow> real" where
  "or_real v d = (case v of None \<Rightarrow> d | Some x \<Rightarrow> if x = 0 then d else x)"

definition or_string :: "string option \<Rightarrow> string \<Rightarrow> string" where
  "or_string v d = (case v of None \<Rightarrow> d | Some x \<Rightarrow> if x = [] then d else x)"

text \<open>
  A step of the trace. The source's step is an object with a \<^verbatim>\<open>type\<close>, a \<^verbatim>\<open>phase\<close> and fields
  that depend on the type; here there is one constructor for each type, with the fields in
  the order of the source:
  \<^item> \<open>InputStep\<close>: layerIndex, description, highlightNeurons, activations;
  \<^item> \<open>ForwardNeuron\<close>: layerIndex, neuronIndex, description, weightedSum, activation,
    inputWeights, inputActivations, bias, highlightConnections, highlightNeurons;
  \<^item> \<open>ForwardLayerComplete\<close>: layerIndex, description, activations, highlightNeurons;
  \<^item> \<open>LossStep\<close>: description, output, target, error, loss;
  \<^item> \<open>BackwardDelta\<close>: layerIndex, neuronIndex (absent in the output neuron's step),
    description, delta, highlightNeurons, highlightConnections (absent in the output
    neuron's step);
  \<^item> \<open>WeightUpdate\<close>: layerIndex, fromNeuron, toNeuron, description, oldWeight, newWeight,
    gradient, weightUpdate, highlightConnections;
  \<^item> \<open>Complete\<close>: weights, previousWeights.

  A highlighted neuron is the pair (layer, neuron); a highlighted connection is
  (fromLayer, fromNeuron, toLayer, toNeuron). A description is a template string; the model
  keeps the values the template interpolates, in their order: \<open>Fixed v d\<close> for
  \<^verbatim>\<open>v.toFixed(d)\<close>, \<open>Plain v\<close> for a number printed as it is, \<open>Index n\<close> for an index and
  \<open>Name\<close> for the name of the activation function. The fixed text between them is the same
  in every step of one type.
\<close>

datatype desc_part = Fixed real nat | Plain real | Index int | Name string

type_synonym neuron = "int \<times> int"

type_synonym connection = "int \<times> int \<times> int \<times> int"

datatype step =
    InputStep int "desc_part list" "neuron list" "real list list"
  | ForwardNeuron int int "desc_part list" real real "real list" "real list" real
      "connection list" "neuron list"
  | ForwardLayerComplete int "desc_part list" "real list list" "neuron list"
  | LossStep "desc_part list" real real real real
  | BackwardDelta int "int option" "desc_part list" real "neuron list" "connection list option"
  | WeightUpdate int int int "desc_part list" real real real real "connection list"
  | Complete "real list list list" "real list list list"

fun step_type :: "step \<Rightarrow> string" where
  "step_type (InputStep _ _ _ _) = ''input''"
| "step_type (ForwardNeuron _ _ _ _ _ _ _ _ _ _) = ''forward_neuron''"
| "step_type (ForwardLayerComplete _ _ _ _) = ''forward_layer_complete''"
| "step_type (LossStep _ _ _ _ _) = ''loss''"
| "step_type (BackwardDelta _ _ _ _ _ _) = ''backward_delta''"
| "step_type (WeightUpdate _ _ _ _ _ _ _ _ _) = ''weight_update''"
| "step_type (Complete _ _) = ''complete''"

fun phase :: "step \<Rightarrow> string" where
  "phase (InputStep _ _ _ _) = ''forward''"
| "phase (ForwardNeuron _ _ _ _ _ _ _ _ _ _) = ''forward''"
| "phase (ForwardLayerComplete _ _ _ _) = ''forward''"
| "phase (LossStep _ _ _ _ _) = ''backward''"
| "phase (BackwardDelta _ _ _ _ _ _) = ''backward''"
| "phase (WeightUpdate _ _ _ _ _ _ _ _ _) = ''backward''"
| "phase (Complete _ _) = ''complete''"

fun highlightNeurons :: "step \<Rightarrow> neuron list" where
  "highlightNeurons (InputStep _ _ hn _) = hn"
| "highlightNeurons (ForwardNeuron _ _ _ _ _ _ _ _ _ hn) = hn"
| "highlightNeurons (ForwardLayerComplete _ _ _ hn) = hn"
| "highlightNeurons (BackwardDelta _ _ _ _ hn _) = hn"
| "highlightNeurons _ = []"

fun highlightConnections :: "step \<Rightarrow> connection list" where
  "highlightConnections (ForwardNeuron _ _ _ _ _ _ _ _ hc _) = hc"
| "highlightConnections (BackwardDelta _ _ _ _ _ (Some hc)) = hc"
| "highlightConnections (WeightUpdate _ _ _ _ _ _ _ _ hc) = hc"
| "highlightConnections _ = []"

text \<open>
  The steps the two passes push, as functions of the values they record. The layer index
  \<open>l\<close> of a transition and the neuron indices \<open>j\<close>, \<open>i\<close> are those of the source's
  loops; \<open>n\<close> in \<open>hiddenDeltaStep\<close> is the length of \<^verbatim>\<open>nextLayerDeltas\<close> and \<open>nl\<close> in
  \<open>outputDeltaStep\<close> is \<^verbatim>\<open>this.layers.length\<close>.
\<close>

definition inputStep :: "real list \<Rightarrow> step" where
  "inputStep input =
     InputStep 0 (map (\<lambda>v. Fixed v 3) input) (map (\<lambda>i. (0, int i)) [0..<length input])
       [input]"

definition forwardNeuronStep ::
  "string \<Rightarrow> nat \<Rightarrow> nat \<Rightarrow> real \<Rightarrow> real \<Rightarrow> real list \<Rightarrow> real list \<Rightarrow> real \<Rightarrow> step" where
  "forwardNeuronStep af l j z a wj cur b =
     ForwardNeuron (int l + 1) (int j)
       [Index (int l + 1), Index (int j + 1), Fixed z 4, Name af, Fixed a 4]
       z a wj cur b
       (map (\<lambda>i. (int l, int i, int l + 1, int j)) [0..<length cur])
       [(int l + 1, int j)]"

definition layerCompleteStep :: "nat \<Rightarrow> real list \<Rightarrow> real list list \<Rightarrow> step" where
  "layerCompleteStep l newActivation acts =
     ForwardLayerComplete (int l + 1)
       (Index (int l + 1) # map (\<lambda>v. Fixed v 4) newActivation)
       acts
       (map (\<lambda>i. (int l + 1, int i)) [0..<length newActivation])"

definition lossStep :: "real \<Rightarrow> real \<Rightarrow> real \<Rightarrow> real \<Rightarrow> step" where
  "lossStep out target err lss =
     LossStep [Fixed out 4, Plain target, Fixed err 4, Fixed lss 6] out target err lss"

definition outputDeltaStep :: "nat \<Rightarrow> real \<Rightarrow> real \<Rightarrow> real \<Rightarrow> step" where
  "outputDeltaStep nl err sigmoidDerivative outputDelta =
     BackwardDelta (int nl - 1) None
       [Fixed err 4, Fixed sigmoidDerivative 4, Fixed outputDelta 6]
       outputDelta [(int nl - 1, 0)] None"

definition hiddenDeltaStep :: "string \<Rightarrow> nat \<Rightarrow> nat \<Rightarrow> real \<Rightarrow> nat \<Rightarrow> step" where
  "hiddenDeltaStep af l j delta n =
     BackwardDelta (int l + 1) (Some (int j))
       [Index (int l + 1), Index (int j + 1), Name af, Fixed delta 6]
       delta [(int l + 1, int j)]
       (Some (map (\<lambda>k. (int l + 1, int j, int l + 2, int k)) [0..<n]))"

definition weightUpdateStep :: "nat \<Rightarrow> nat \<Rightarrow> nat \<Rightarrow> real \<Rightarrow> real \<Rightarrow> real \<Rightarrow> real \<Rightarrow> step" where
  "weightUpdateStep l j i oldWeight newWeight gradient weightUpdate =
     WeightUpdate (int l) (int i) (int j)
       [Index (int l), Index (int j), Index (int i), Fixed oldWeight 4, Fixed newWeight 4,
        Fixed weightUpdate 6]
       oldWeight newWeight gradient weightUpdate
       [(int l, int i, int l + 1, int j)]"

text \<open>The fields of a \<^verbatim>\<open>NeuralNetwork\<close> object. \<open>None\<close> in \<open>preActivations\<close> is \<^verbatim>\<open>null\<close>.\<close>

record network =
  inputSize :: int
  hiddenLayers :: int
  neuronsPerLayer :: int
  activationFunction :: string
  learningRate :: real
  layers :: "int list"
  weights :: "real list list list"
  biases :: "real list list"
  activations :: "real list list"
  preActivations :: "real list option list"
  deltas :: "real list list"
  weightGradients :: "real list list list"
  biasGradients :: "real list list"
  previousWeights :: "real list list list"
  steps :: "step list"
  currentStepIndex :: int

subsection \<open>Construction and initialization\<close>

text \<open>
  \<^verbatim>\<open>Math.random()\<close> is the only source of randomness. \<open>rnd\<close> is the sequence of the values
  it returns during one call of \<^verbatim>\<open>initializeNetwork\<close>: \<open>rnd c\<close> is the value of draw number
  \<open>c\<close>. For the transition from a layer of \<open>a\<close> neurons to one of \<open>b\<close> neurons the source
  draws the \<open>b\<close> rows of \<open>a\<close> weights first, row after row, and the \<open>b\<close> biases after them.
  The limit \<open>\<surd>(6 / (a + b))\<close> scales a weight only, and a weight is drawn only when both
  \<open>a\<close> and \<open>b\<close> are positive, so that the division is never by zero where it counts.
\<close>

fun initializeLayers ::
  "(nat \<Rightarrow> real) \<Rightarrow> nat \<Rightarrow> int list \<Rightarrow> real list list list \<times> real list list" where
  "initializeLayers rnd c (a # b # rest) =
     (let limit = sqrt (6 / real_of_int (a + b));
          layerWeights =
            map (\<lambda>j. map (\<lambda>k. (rnd (c + j * nat a + k) * 2 - 1) * limit) [0..<nat a])
              [0..<nat b];
          c' = c + nat b * nat a;
          layerBiases = map (\<lambda>j. (rnd (c' + j) * 2 - 1) * 0.1) [0..<nat b];
          (ws, bs) = initializeLayers rnd (c' + nat b) (b # rest)
      in (layerWeights # ws, layerBiases # bs))"
| "initializeLayers rnd c _ = ([], [])"

definition initializeNetwork :: "(nat \<Rightarrow> real) \<Rightarrow> network \<Rightarrow> network" where
  "initializeNetwork rnd s =
     (let ls = [inputSize s] @ replicate (nat (hiddenLayers s)) (neuronsPerLayer s) @ [1];
          (ws, bs) = initializeLayers rnd 0 ls
      in s\<lparr>layers := ls, weights := ws, biases := bs, previousWeights := ws\<rparr>)"

definition new_NeuralNetwork :: "(nat \<Rightarrow> real) \<Rightarrow> config \<Rightarrow> network" where
  "new_NeuralNetwork rnd cfg =
     initializeNetwork rnd
       \<lparr>inputSize = or_int (cfg_inputSize cfg) 3,
        hiddenLayers = or_int (cfg_hiddenLayers cfg) 2,
        neuronsPerLayer = or_int (cfg_neuronsPerLayer cfg) 4,
        activationFunction = or_string (cfg_activationFunction cfg) ''sigmoid'',
        learningRate = or_real (cfg_learningRate cfg) 0.5,
        layers = [], weights = [], biases = [],
        activations = [], preActivations = [],
        deltas = [], weightGradients = [], biasGradients = [], previousWeights = [],
        steps = [], currentStepIndex = - 1\<rparr>"

subsection \<open>Activation functions\<close>

definition sigmoid :: "real \<Rightarrow> real" where
  "sigmoid x = 1 / (1 + exp (- (max (- 500) (min 500 x))))"

definition activate :: "string \<Rightarrow> real \<Rightarrow> bool \<Rightarrow> real" where
  "activate af x derivative =
     (if af = ''sigmoid'' then
        (if derivative then (let sig = sigmoid x in sig * (1 - sig)) else sigmoid x)
      else if af = ''relu'' then
        (if derivative then (if x > 0 then 1 else 0) else max 0 x)
      else if af = ''tanh'' then
        (if derivative then (let t = tanh x in 1 - t * t) else tanh x)
      else sigmoid x)"

subsection \<open>Forward propagation\<close>

text \<open>
  The innermost loop of \<^verbatim>\<open>forward\<close>: \<^verbatim>\<open>z += currentActivation[i] * layerWeights[j][i]\<close> for
  every index \<open>i\<close> of \<^verbatim>\<open>currentActivation\<close>, from \<open>z\<close> = the bias. The two lists are walked
  together; a row of weights shorter than the activations is a read out of range.
\<close>

fun weightedSum :: "real \<Rightarrow> real list \<Rightarrow> real list \<Rightarrow> error + real" where
  "weightedSum z [] ws = Inr z"
| "weightedSum z (a # as) [] = Inl UndefinedRead"
| "weightedSum z (a # as) (w # ws) = weightedSum (z + a * w) as ws"

text \<open>
  The loop over the neurons \<open>j\<close> of layer \<open>l + 1\<close>; the last argument holds the rows
  \<^verbatim>\<open>layerWeights[j]\<close>, \<^verbatim>\<open>layerWeights[j+1]\<close>, ... still to do. It returns what the loop
  pushes: the activations, the weighted sums and the steps.
\<close>

fun forwardNeurons ::
  "string \<Rightarrow> bool \<Rightarrow> nat \<Rightarrow> real list \<Rightarrow> real list \<Rightarrow> nat \<Rightarrow> real list list \<Rightarrow>
   error + (real list \<times> real list \<times> step list)" where
  "forwardNeurons af isOutput l layerBiases cur j [] = Inr ([], [], [])"
| "forwardNeurons af isOutput l layerBiases cur j (wj # rest) =
     (if length layerBiases \<le> j then Inl UndefinedRead
      else
        (case weightedSum (layerBiases ! j) cur wj of
           Inl e \<Rightarrow> Inl e
         | Inr z \<Rightarrow>
             (let a = (if isOutput then sigmoid z else activate af z False);
                  st = forwardNeuronStep af l j z a wj cur (layerBiases ! j)
              in (case forwardNeurons af isOutput l layerBiases cur (j + 1) rest of
                    Inl e \<Rightarrow> Inl e
                  | Inr (as, zs, sts) \<Rightarrow> Inr (a # as, z # zs, st # sts)))))"

text \<open>
  The loop over the transitions \<open>l\<close>; the fourth argument holds \<^verbatim>\<open>this.weights[l]\<close>,
  \<^verbatim>\<open>this.weights[l+1]\<close>, ... still to do, so that \<open>l\<close> is the last index exactly when one
  entry is left. The state of the loop is \<^verbatim>\<open>currentActivation\<close>, \<^verbatim>\<open>this.activations\<close>,
  \<^verbatim>\<open>this.preActivations\<close> and \<^verbatim>\<open>this.steps\<close>.
\<close>

fun forwardLayers ::
  "string \<Rightarrow> real list list \<Rightarrow> nat \<Rightarrow> real list list list \<Rightarrow> real list \<Rightarrow>
   real list list \<times> real list option list \<times> step list \<Rightarrow>
   error + (real list \<times> real list list \<times> real list option list \<times> step list)" where
  "forwardLayers af bss l [] cur (acts, pres, sts) = Inr (cur, acts, pres, sts)"
| "forwardLayers af bss l (layerWeights # rest) cur (acts, pres, sts) =
     (if layerWeights \<noteq> [] \<and> length bss \<le> l then Inl TypeError
      else
        (case forwardNeurons af (rest = []) l (if l < length bss then bss ! l else []) cur 0
                layerWeights of
           Inl e \<Rightarrow> Inl e
         | Inr (newActivation, layerPreActivations, nsts) \<Rightarrow>
             (let acts' = acts @ [newActivation];
                  st = layerCompleteStep l newActivation acts'
              in forwardLayers af bss (l + 1) rest newActivation
                   (acts', pres @ [Some layerPreActivations], sts @ nsts @ [st]))))"

definition forward :: "network \<Rightarrow> real list \<Rightarrow> error + (real \<times> network)" where
  "forward s input =
     (case forwardLayers (activationFunction s) (biases s) 0 (weights s) input
             ([input], [None], [inputStep input]) of
        Inl e \<Rightarrow> Inl e
      | Inr (cur, acts, pres, sts) \<Rightarrow>
          (case cur of
             [] \<Rightarrow> Inl UndefinedRead
           | out # _ \<Rightarrow> Inr (out, s\<lparr>activations := acts, preActivations := pres, steps := sts\<rparr>)))"

subsection \<open>Backward propagation\<close>

text \<open>The object \<^verbatim>\<open>{loss, output, error}\<close> that \<^verbatim>\<open>backward\<close> returns.\<close>

record backward_result =
  loss :: real
  "output" :: real
  error :: real

text \<open>
  \<^verbatim>\<open>deltaSum += nextLayerDeltas[k] * nextLayerWeights[k][j]\<close> for every index \<open>k\<close> of
  \<^verbatim>\<open>nextLayerDeltas\<close>. The deltas and the rows of the next layer's weights are walked
  together: a missing row \<^verbatim>\<open>nextLayerWeights[k]\<close> makes the source throw, a row with no
  entry \<open>j\<close> is a read out of range.
\<close>

fun deltaSum :: "real \<Rightarrow> real list \<Rightarrow> real list list \<Rightarrow> nat \<Rightarrow> error + real" where
  "deltaSum acc [] nws j = Inr acc"
| "deltaSum acc (d # ds) [] j = Inl TypeError"
| "deltaSum acc (d # ds) (wk # nws) j =
     (if length wk \<le> j then Inl UndefinedRead else deltaSum (acc + d * wk ! j) ds nws j)"

text \<open>
  The loop over the neurons \<open>j\<close> of the hidden layer \<open>l + 1\<close>, for \<open>j\<close> up to \<open>n\<close> =
  \<^verbatim>\<open>this.layers[l + 1]\<close>; \<open>zs\<close> is \<^verbatim>\<open>this.preActivations[l + 1]\<close>. The first argument is the
  number of iterations still to do. It returns \<^verbatim>\<open>layerDeltas\<close> and the steps pushed.
\<close>

fun hiddenDeltas ::
  "nat \<Rightarrow> string \<Rightarrow> nat \<Rightarrow> real list \<Rightarrow> real list list \<Rightarrow> real list option \<Rightarrow> nat \<Rightarrow>
   error + (real list \<times> step list)" where
  "hiddenDeltas 0 af l nextLayerDeltas nextLayerWeights zs j = Inr ([], [])"
| "hiddenDeltas (Suc m) af l nextLayerDeltas nextLayerWeights zs j =
     (case deltaSum 0 nextLayerDeltas nextLayerWeights j of
        Inl e \<Rightarrow> Inl e
      | Inr dsum \<Rightarrow>
          (case zs of
             None \<Rightarrow> Inl TypeError
           | Some zl \<Rightarrow>
               if length zl \<le> j then Inl UndefinedRead
               else
                 (let z = zl ! j;
                      activationDerivative = activate af z True;
                      delta = dsum * activationDerivative;
                      st = hiddenDeltaStep af l j delta (length nextLayerDeltas)
                  in (case hiddenDeltas m af l nextLayerDeltas nextLayerWeights zs (j + 1) of
                        Inl e \<Rightarrow> Inl e
                      | Inr (ds, sts) \<Rightarrow> Inr (delta # ds, st # sts)))))"

text \<open>
  \<open>backpropagate af ls pres ws k ds\<close> is the loop \<^verbatim>\<open>for (l = k - 1; l >= 0; l--)\<close> over the
  hidden layers, on the array \<open>ds\<close> of deltas; the source starts it at \<open>l\<close> =
  \<^verbatim>\<open>this.weights.length - 2\<close>. \<open>ls\<close> is \<^verbatim>\<open>this.layers\<close>, \<open>pres\<close> is \<^verbatim>\<open>this.preActivations\<close> and
  \<open>ws\<close> is \<^verbatim>\<open>this.weights\<close>, which this loop only reads: nothing has been updated yet.
  A missing entry \<open>l + 1\<close> of one of the arrays is a read out of range.
\<close>

fun backpropagate ::
  "string \<Rightarrow> int list \<Rightarrow> real list option list \<Rightarrow> real list list list \<Rightarrow> nat \<Rightarrow> real list list \<Rightarrow>
   error + (real list list \<times> step list)" where
  "backpropagate af ls pres ws 0 ds = Inr (ds, [])"
| "backpropagate af ls pres ws (Suc l) ds =
     (if length ls \<le> l + 1 \<or> length pres \<le> l + 1 \<or> length ds \<le> l + 1 \<or> length ws \<le> l + 1
      then Inl UndefinedRead
      else
        (case hiddenDeltas (nat (ls ! (l + 1))) af l (ds ! (l + 1)) (ws ! (l + 1))
                (pres ! (l + 1)) 0 of
           Inl e \<Rightarrow> Inl e
         | Inr (layerDeltas, sts) \<Rightarrow>
             (case backpropagate af ls pres ws l (ds[l := layerDeltas]) of
                Inl e \<Rightarrow> Inl e
              | Inr (ds', sts') \<Rightarrow> Inr (ds', sts @ sts'))))"

text \<open>
  The loop over the weights \<open>i\<close> of one neuron, in the update phase: the last argument holds
  \<^verbatim>\<open>this.weights[l][j][i]\<close>, \<^verbatim>\<open>this.weights[l][j][i+1]\<close>, ... still to do and \<open>al\<close> is
  \<^verbatim>\<open>this.activations[l]\<close> (\<open>None\<close> when there is no such entry). It returns the updated
  weights, \<^verbatim>\<open>neuronGradients\<close> and the steps pushed.
\<close>

fun updateWeights ::
  "real \<Rightarrow> nat \<Rightarrow> nat \<Rightarrow> real \<Rightarrow> real list option \<Rightarrow> nat \<Rightarrow> real list \<Rightarrow>
   error + (real list \<times> real list \<times> step list)" where
  "updateWeights lr l j delta al i [] = Inr ([], [], [])"
| "updateWeights lr l j delta al i (oldWeight # rest) =
     (case al of
        None \<Rightarrow> Inl TypeError
      | Some as \<Rightarrow>
          if length as \<le> i then Inl UndefinedRead
          else
            (let gradient = delta * as ! i;
                 weightUpdate = - lr * gradient;
                 newWeight = oldWeight + weightUpdate;
                 st = weightUpdateStep l j i oldWeight newWeight gradient weightUpdate
             in (case updateWeights lr l j delta al (i + 1) rest of
                   Inl e \<Rightarrow> Inl e
                 | Inr (ws, gs, sts) \<Rightarrow> Inr (newWeight # ws, gradient # gs, st # sts))))"

text \<open>
  The loop over the neurons \<open>j\<close> of one transition, in the update phase: the last argument
  holds the rows \<^verbatim>\<open>this.weights[l][j]\<close>, ... still to do, \<open>dl\<close> is \<^verbatim>\<open>this.deltas[l]\<close> and
  \<open>bl\<close> is \<^verbatim>\<open>this.biases[l]\<close>, updated on the way (\<open>None\<close> when there is no such entry). It
  returns the updated rows, \<^verbatim>\<open>layerGradients\<close>, \<^verbatim>\<open>layerBiasGradients\<close>, the biases and the
  steps pushed.
\<close>

fun updateNeurons ::
  "real \<Rightarrow> nat \<Rightarrow> real list \<Rightarrow> real list option \<Rightarrow> real list option \<Rightarrow> nat \<Rightarrow> real list list \<Rightarrow>
   error + (real list list \<times> real list list \<times> real list \<times> real list option \<times> step list)" where
  "updateNeurons lr l dl al bl j [] = Inr ([], [], [], bl, [])"
| "updateNeurons lr l dl al bl j (row # rest) =
     (if length dl \<le> j then Inl UndefinedRead
      else
        (let delta = dl ! j
         in (case updateWeights lr l j delta al 0 row of
               Inl e \<Rightarrow> Inl e
             | Inr (row', neuronGradients, sts) \<Rightarrow>
                 (case bl of
                    None \<Rightarrow> Inl TypeError
                  | Some bs \<Rightarrow>
                      if length bs \<le> j then Inl UndefinedRead
                      else
                        (case updateNeurons lr l dl al (Some (bs[j := bs ! j - lr * delta]))
                                (j + 1) rest of
                           Inl e \<Rightarrow> Inl e
                         | Inr (rows, gs, bgs, bl', sts') \<Rightarrow>
                             Inr (row' # rows, neuronGradients # gs, delta # bgs, bl',
                                  sts @ sts'))))))"

text \<open>
  The loop over the transitions \<open>l\<close>, in the update phase: the last argument holds
  \<^verbatim>\<open>this.weights[l]\<close>, ... still to do, \<open>ds\<close> is \<^verbatim>\<open>this.deltas\<close>, \<open>acts\<close> is
  \<^verbatim>\<open>this.activations\<close> and \<open>bss\<close> is \<^verbatim>\<open>this.biases\<close>, updated on the way. \<^verbatim>\<open>this.deltas\<close> has an
  entry for every transition. It returns the updated weights, \<^verbatim>\<open>this.weightGradients\<close>,
  \<^verbatim>\<open>this.biasGradients\<close>, the biases and the steps pushed.
\<close>

definition entry :: "'a list \<Rightarrow> nat \<Rightarrow> 'a option" where
  "entry xs i = (if i < length xs then Some (xs ! i) else None)"

fun updateLayers ::
  "real \<Rightarrow> real list list \<Rightarrow> real list list \<Rightarrow> real list list \<Rightarrow> nat \<Rightarrow> real list list list \<Rightarrow>
   error + (real list list list \<times> real list list list \<times> real list list \<times> real list list \<times>
            step list)" where
  "updateLayers lr ds acts bss l [] = Inr ([], [], [], bss, [])"
| "updateLayers lr ds acts bss l (layerWeights # rest) =
     (if length ds \<le> l then Inl TypeError
      else
        (case updateNeurons lr l (ds ! l) (entry acts l) (entry bss l) 0 layerWeights of
           Inl e \<Rightarrow> Inl e
         | Inr (rows, layerGradients, layerBiasGradients, bl', sts) \<Rightarrow>
             (case updateLayers lr ds acts
                     (case bl' of None \<Rightarrow> bss | Some bs \<Rightarrow> bss[l := bs]) (l + 1) rest of
                Inl e \<Rightarrow> Inl e
              | Inr (ws, wgs, bgs, bss', sts') \<Rightarrow>
                  Inr (rows # ws, layerGradients # wgs, layerBiasGradients # bgs, bss',
                       sts @ sts'))))"

text \<open>
  The arithmetic of the loss. A JavaScript number is an IEEE 754 binary64 value: an integer
  multiple \<open>m \<times> 2 ^ (e - 52)\<close> with \<open>\<bar>m\<bar> \<le> 2 ^ 53\<close>, where the exponent \<open>e\<close> is that of the
  number (\<open>2 ^ e \<le> \<bar>x\<bar> < 2 ^ (e + 1)\<close>) but at least \<open>-1022\<close>, so that the values below
  \<open>2 ^ (-1022)\<close> are the multiples of \<open>2 ^ (-1074)\<close>. The result of an operation is the exact
  result rounded to the nearest such value, and to the one with the even \<open>m\<close> when two are
  equally near. \<open>round_even\<close> rounds a real to the nearest integer in this way and
  \<open>round_double\<close> a real to the nearest double; \<open>double_mul\<close> is the product \<^verbatim>\<open>x * y\<close> of the
  source. A result beyond the largest double, which is \<^verbatim>\<open>Infinity\<close> in the source, is not
  modelled.
\<close>

definition round_even :: "real \<Rightarrow> int" where
  "round_even y =
     (let f = \<lfloor>y\<rfloor>; d = y - of_int f
      in if d < 1 / 2 then f else if 1 / 2 < d then f + 1 else if even f then f else f + 1)"

definition round_double :: "real \<Rightarrow> real" where
  "round_double x =
     (if x = 0 then 0
      else
        (let a = \<bar>x\<bar>;
             e = max \<lfloor>log 2 a\<rfloor> (- 1022);
             u = 2 powr of_int (e - 52)
         in sgn x * (of_int (round_even (a / u)) * u)))"

definition double_mul :: "real \<Rightarrow> real \<Rightarrow> real" where
  "double_mul x y = round_double (x * y)"

text \<open>
  \<^verbatim>\<open>backward(target)\<close>. The output is entry 0 of the last entry of \<^verbatim>\<open>this.activations\<close>; with
  no activations at all (no forward pass before) the source throws. \<^verbatim>\<open>outputZ\<close> is read and
  never used, but the read throws when \<^verbatim>\<open>this.preActivations\<close> is empty or ends in \<^verbatim>\<open>null\<close>.
  The loss \<^verbatim>\<open>0.5 * error * error\<close> is the two products from left to right, each rounded.
  The array of deltas starts as one empty array for each transition, and its last entry is
  set to \<^verbatim>\<open>[outputDelta]\<close> (with no transition at all, index \<open>-1\<close> is set and the array stays
  empty).
\<close>

definition backward :: "network \<Rightarrow> real \<Rightarrow> error + (backward_result \<times> network)" where
  "backward s target =
     (if activations s = [] then Inl TypeError
      else
        (case last (activations s) of
           [] \<Rightarrow> Inl UndefinedRead
         | out # _ \<Rightarrow>
             (let err = out - target;
                  lss = double_mul (double_mul 0.5 err) err
              in if preActivations s = [] \<or> last (preActivations s) = None then Inl TypeError
                 else
                   (let sigmoidDerivative = out * (1 - out);
                        outputDelta = err * sigmoidDerivative;
                        n = length (weights s);
                        ds0 = (replicate n [])[n - 1 := [outputDelta]]
                    in (case backpropagate (activationFunction s) (layers s) (preActivations s)
                               (weights s) (n - 1) ds0 of
                          Inl e \<Rightarrow> Inl e
                        | Inr (ds, hsts) \<Rightarrow>
                            (case updateLayers (learningRate s) ds (activations s) (biases s) 0
                                    (weights s) of
                               Inl e \<Rightarrow> Inl e
                             | Inr (ws, wgs, bgs, bss, usts) \<Rightarrow>
                                 Inr (\<lparr>loss = lss, output = out, error = err\<rparr>,
                                      s\<lparr>previousWeights := weights s,
                                        deltas := ds,
                                        weightGradients := wgs,
                                        biasGradients := bgs,
                                        weights := ws,
                                        biases := bss,
                                        steps :=
                                          steps s @
                                          [lossStep out target err lss,
                                           outputDeltaStep (length (layers s)) err
                                             sigmoidDerivative outputDelta] @
                                          hsts @ usts @ [Complete ws (weights s)]\<rparr>)))))))"

subsection \<open>The step cursor and training\<close>

definition getCurrentStep :: "network \<Rightarrow> step option" where
  "getCurrentStep s =
     (if currentStepIndex s \<ge> 0 \<and> currentStepIndex s < int (length (steps s))
      then Some (steps s ! nat (currentStepIndex s)) else None)"

definition nextStep :: "network \<Rightarrow> step option \<times> network" where
  "nextStep s =
     (if currentStepIndex s < int (length (steps s)) - 1
      then (let s' = s\<lparr>currentStepIndex := currentStepIndex s + 1\<rparr> in (getCurrentStep s', s'))
      else (None, s))"

definition previousStep :: "network \<Rightarrow> step option \<times> network" where
  "previousStep s =
     (if currentStepIndex s > 0
      then (let s' = s\<lparr>currentStepIndex := currentStepIndex s - 1\<rparr> in (getCurrentStep s', s'))
      else (None, s))"

definition resetSteps :: "network \<Rightarrow> network" where
  "resetSteps s = s\<lparr>currentStepIndex := - 1\<rparr>"

text \<open>\<^verbatim>\<open>train\<close> returns the result of \<^verbatim>\<open>backward\<close> together with \<^verbatim>\<open>this.steps\<close>.\<close>

definition train :: "network \<Rightarrow> real list \<Rightarrow> real \<Rightarrow> error + ((backward_result \<times> step list) \<times> network)"
  where
  "train s input target =
     (case forward (resetSteps s) input of
        Inl e \<Rightarrow> Inl e
      | Inr (out, s1) \<Rightarrow>
          (case backward s1 target of
             Inl e \<Rightarrow> Inl e
           | Inr (result, s2) \<Rightarrow> Inr ((result, steps s2), s2)))"

subsection \<open>Sequences of calls\<close>

text \<open>
  The calls a client makes on the engine, and a sequence of them run from a state. A call
  that fails ends the run with its error.
\<close>

datatype operation =
    Reinitialize "nat \<Rightarrow> real"
  | Forward "real list"
  | Backward real
  | Train "real list" real
  | NextStep
  | PreviousStep
  | ResetSteps

fun call :: "network \<Rightarrow> operation \<Rightarrow> error + network" where
  "call s (Reinitialize rnd) = Inr (initializeNetwork rnd s)"
| "call s (Forward input) = (case forward s input of Inl e \<Rightarrow> Inl e | Inr (_, s') \<Rightarrow> Inr s')"
| "call s (Backward target) = (case backward s target of Inl e \<Rightarrow> Inl e | Inr (_, s') \<Rightarrow> Inr s')"
| "call s (Train input target) =
     (case train s input target of Inl e \<Rightarrow> Inl e | Inr (_, s') \<Rightarrow> Inr s')"
| "call s NextStep = Inr (snd (nextStep s))"
| "call s PreviousStep = Inr (snd (previousStep s))"
| "call s ResetSteps = Inr (resetSteps s)"

fun calls :: "network \<Rightarrow> operation list \<Rightarrow> error + network" where
  "calls s [] = Inr s"
| "calls s (c # cs) = (case call s c of Inl e \<Rightarrow> Inl e | Inr s' \<Rightarrow> calls s' cs)"

text \<open>The calls that leave the step sequence alone or rebuild it with the cursor reset.\<close>

fun cursor_call :: "operation \<Rightarrow> bool" where
  "cursor_call (Forward _) = False"
| "cursor_call (Backward _) = False"
| "cursor_call _ = True"

subsection \<open>Properties of states\<close>

text \<open>A configuration whose sizes, where given, are in the range the contract names.\<close>

definition valid_config :: "config \<Rightarrow> bool" where
  "valid_config cfg =
     ((case cfg_inputSize cfg of None \<Rightarrow> True | Some n \<Rightarrow> 1 \<le> n) \<and>
      (case cfg_hiddenLayers cfg of None \<Rightarrow> True | Some h \<Rightarrow> 0 \<le> h) \<and>
      (case cfg_neuronsPerLayer cfg of None \<Rightarrow> True | Some k \<Rightarrow> 1 \<le> k))"

text \<open>
  The shape of the parameters: one entry of \<open>weights\<close> and of \<open>biases\<close> for each transition
  \<open>l\<close>, with \<open>layers ! (l + 1)\<close> rows of \<open>layers ! l\<close> weights and \<open>layers ! (l + 1)\<close> biases.
\<close>

definition shape_at :: "network \<Rightarrow> nat \<Rightarrow> bool" where
  "shape_at s l =
     (int (length (weights s ! l)) = layers s ! (l + 1) \<and>
      list_all (\<lambda>row. int (length row) = layers s ! l) (weights s ! l) \<and>
      int (length (biases s ! l)) = layers s ! (l + 1))"

definition shape_invariant :: "network \<Rightarrow> bool" where
  "shape_invariant s =
     (length (weights s) = length (layers s) - 1 \<and>
      length (biases s) = length (layers s) - 1 \<and>
      list_all (shape_at s) [0..<length (layers s) - 1])"

text \<open>
  The topology the size fields describe is valid, and the network has at least two layers,
  the last of them with one neuron.
\<close>

definition valid_topology :: "network \<Rightarrow> bool" where
  "valid_topology s =
     (1 \<le> inputSize s \<and> 0 \<le> hiddenLayers s \<and> 1 \<le> neuronsPerLayer s \<and>
      2 \<le> length (layers s) \<and> layers s ! 0 = inputSize s \<and> last (layers s) = 1)"

text \<open>
  A call that fits a network of \<open>n\<close> inputs: an input vector has \<open>n\<close> entries. A bare
  \<^verbatim>\<open>backward\<close> fits only after a forward pass, and is left out here.
\<close>

fun fits :: "int \<Rightarrow> operation \<Rightarrow> bool" where
  "fits n (Forward input) = (int (length input) = n)"
| "fits n (Train input _) = (int (length input) = n)"
| "fits n (Backward _) = False"
| "fits n _ = True"

text \<open>A configuration and a sequence of random draws, for the examples.\<close>

definition demo_config :: config where
  "demo_config =
     \<lparr>cfg_inputSize = Some 2, cfg_hiddenLayers = Some 1, cfg_neuronsPerLayer = Some 2,
      cfg_activationFunction = Some ''relu'', cfg_learningRate = Some (1 / 2)\<rparr>"

definition demo_network :: network where
  "demo_network = new_NeuralNetwork (\<lambda>c. 3 / 4) demo_config"



text \<open>
  The shape of what a forward pass leaves behind: activations for every layer, and weighted
  sums for every layer but the input layer, whose entry is \<^verbatim>\<open>null\<close>.
\<close>

definition pass_at :: "network \<Rightarrow> nat \<Rightarrow> bool" where
  "pass_at s l =
     (int (length (activations s ! l)) = layers s ! l \<and>
      (case preActivations s ! l of
         None \<Rightarrow> l = 0
       | Some zs \<Rightarrow> 0 < l \<and> int (length zs) = layers s ! l))"

definition pass_shape :: "network \<Rightarrow> bool" where
  "pass_shape s =
     (length (activations s) = length (layers s) \<and>
      length (preActivations s) = length (layers s) \<and>
      list_all (pass_at s) [0..<length (layers s)])"

text \<open>The bound on the step cursor.\<close>

definition cursor_invariant :: "network \<Rightarrow> bool" where
  "cursor_invariant s =
     (- 1 \<le> currentStepIndex s \<and> currentStepIndex s \<le> int (length (steps s)) - 1)"

text \<open>
  The neurons of the layers after the input layer, as pairs (layer, neuron), and the
  weights, as (fromLayer, fromNeuron, toLayer, toNeuron), of a topology.
\<close>

definition neurons_of :: "int list \<Rightarrow> neuron list" where
  "neurons_of ls =
     concat (map (\<lambda>l. map (\<lambda>j. (int l, int j)) [0..<nat (ls ! l)]) [1..<length ls])"

definition connections_of :: "int list \<Rightarrow> connection list" where
  "connections_of ls =
     concat (map (\<lambda>l. concat (map (\<lambda>j. map (\<lambda>i. (int l, int i, int l + 1, int j))
                                          [0..<nat (ls ! l)])
                                 [0..<nat (ls ! (l + 1))]))
               [0..<length ls - 1])"

text \<open>
  The order in which \<^verbatim>\<open>backward\<close> visits the neurons: the output neuron first, then the
  hidden layers from the last one back to the first, each in increasing neuron order.
\<close>

definition neurons_backward :: "int list \<Rightarrow> neuron list" where
  "neurons_backward ls =
     (int (length ls) - 1, 0) #
     concat (map (\<lambda>l. map (\<lambda>j. (int l + 1, int j)) [0..<nat (ls ! (l + 1))])
               (rev [0..<length ls - 2]))"

text \<open>
  The derivative forms as the specification words them, for the three activation
  functions a network can be configured with: \<open>\<sigma>(z)(1 - \<sigma>(z))\<close> for the sigmoid, 1 if
  \<open>z > 0\<close> else 0 for ReLU, \<open>1 - tanh(z)\<^sup>2\<close> for the hyperbolic tangent.
\<close>

definition activation_derivative :: "string \<Rightarrow> real \<Rightarrow> real" where
  "activation_derivative af z =
     (if af = ''sigmoid'' then sigmoid z * (1 - sigmoid z)
      else if af = ''relu'' then (if z > 0 then 1 else 0)
      else 1 - (tanh z)\<^sup>2)"

definition steps_of_type :: "string \<Rightarrow> step list \<Rightarrow> step list" where
  "steps_of_type t sts = filter (\<lambda>st. step_type st = t) sts"

subsection \<open>The accessor and the store\<close>

text \<open>
  \<^verbatim>\<open>getNetworkData\<close> returns an object whose fields hold the very arrays the engine's fields
  hold. What a caller can do with them depends on this sharing, so here the arrays live in
  a store: an address is a position in the store, and the value of an array entry is a
  number, a reference to another array, or \<^verbatim>\<open>null\<close>.
\<close>

datatype jsval = Num real | Ref nat | Null

type_synonym store = "jsval list list"

text \<open>Allocation puts a new array behind everything allocated before.\<close>

definition alloc :: "store \<Rightarrow> jsval list \<Rightarrow> jsval \<times> store" where
  "alloc h a = (Ref (length h), h @ [a])"

fun alloc_all :: "(store \<Rightarrow> 'a \<Rightarrow> jsval \<times> store) \<Rightarrow> store \<Rightarrow> 'a list \<Rightarrow> jsval list \<times> store" where
  "alloc_all f h [] = ([], h)"
| "alloc_all f h (x # xs) =
     (case f h x of (v, h1) \<Rightarrow> (case alloc_all f h1 xs of (vs, h2) \<Rightarrow> (v # vs, h2)))"

definition new_array :: "(store \<Rightarrow> 'a \<Rightarrow> jsval \<times> store) \<Rightarrow> store \<Rightarrow> 'a list \<Rightarrow> jsval \<times> store" where
  "new_array f h xs = (case alloc_all f h xs of (vs, h1) \<Rightarrow> alloc h1 vs)"

definition new_number :: "store \<Rightarrow> real \<Rightarrow> jsval \<times> store" where
  "new_number h x = (Num x, h)"

definition new_int :: "store \<Rightarrow> int \<Rightarrow> jsval \<times> store" where
  "new_int h n = (Num (of_int n), h)"

definition new_nullable :: "(store \<Rightarrow> 'a \<Rightarrow> jsval \<times> store) \<Rightarrow> store \<Rightarrow> 'a option \<Rightarrow> jsval \<times> store"
  where
  "new_nullable f h x = (case x of None \<Rightarrow> (Null, h) | Some y \<Rightarrow> f h y)"

text \<open>Reading a value of the model back from the store; \<open>None\<close> when it is not there.\<close>

fun read_all :: "(jsval \<Rightarrow> 'a option) \<Rightarrow> jsval list \<Rightarrow> 'a list option" where
  "read_all f [] = Some []"
| "read_all f (v # vs) =
     (case f v of
        None \<Rightarrow> None
      | Some x \<Rightarrow> (case read_all f vs of None \<Rightarrow> None | Some xs \<Rightarrow> Some (x # xs)))"

definition read_array :: "(store \<Rightarrow> jsval \<Rightarrow> 'a option) \<Rightarrow> store \<Rightarrow> jsval \<Rightarrow> 'a list option" where
  "read_array f h v =
     (case v of Ref a \<Rightarrow> if a < length h then read_all (f h) (h ! a) else None | _ \<Rightarrow> None)"

definition read_number :: "store \<Rightarrow> jsval \<Rightarrow> real option" where
  "read_number h v = (case v of Num x \<Rightarrow> Some x | _ \<Rightarrow> None)"

definition read_int :: "store \<Rightarrow> jsval \<Rightarrow> int option" where
  "read_int h v = (case v of Num x \<Rightarrow> Some \<lfloor>x\<rfloor> | _ \<Rightarrow> None)"

definition read_nullable :: "(store \<Rightarrow> jsval \<Rightarrow> 'a option) \<Rightarrow> store \<Rightarrow> jsval \<Rightarrow> 'a option option"
  where
  "read_nullable f h v = (case v of Null \<Rightarrow> Some None | _ \<Rightarrow> map_option Some (f h v))"

definition read_vector :: "store \<Rightarrow> jsval \<Rightarrow> real list option" where
  "read_vector = read_array read_number"

definition read_matrix :: "store \<Rightarrow> jsval \<Rightarrow> real list list option" where
  "read_matrix = read_array read_vector"

definition read_tensor :: "store \<Rightarrow> jsval \<Rightarrow> real list list list option" where
  "read_tensor = read_array read_matrix"

text \<open>
  The engine object: the store and, for each field that \<^verbatim>\<open>getNetworkData\<close> reads, the
  reference the field holds. \<open>engine_of\<close> lays a state of the model out in an empty store,
  every array in a place of its own: the engine's own arrays share nothing, since
  \<^verbatim>\<open>previousWeights\<close> is a JSON copy and every other array is built entry by entry.
\<close>

record engine =
  heap :: store
  ref_layers :: jsval
  ref_weights :: jsval
  ref_biases :: jsval
  ref_activations :: jsval
  ref_preActivations :: jsval
  ref_deltas :: jsval
  ref_weightGradients :: jsval
  ref_previousWeights :: jsval

definition new_vector :: "store \<Rightarrow> real list \<Rightarrow> jsval \<times> store" where
  "new_vector = new_array new_number"

definition new_matrix :: "store \<Rightarrow> real list list \<Rightarrow> jsval \<times> store" where
  "new_matrix = new_array new_vector"

definition new_tensor :: "store \<Rightarrow> real list list list \<Rightarrow> jsval \<times> store" where
  "new_tensor = new_array new_matrix"

definition engine_of :: "network \<Rightarrow> engine" where
  "engine_of s =
     (case new_array new_int [] (layers s) of (r1, h1) \<Rightarrow>
      case new_tensor h1 (weights s) of (r2, h2) \<Rightarrow>
      case new_matrix h2 (biases s) of (r3, h3) \<Rightarrow>
      case new_matrix h3 (activations s) of (r4, h4) \<Rightarrow>
      case new_array (new_nullable new_vector) h4 (preActivations s) of (r5, h5) \<Rightarrow>
      case new_matrix h5 (deltas s) of (r6, h6) \<Rightarrow>
      case new_tensor h6 (weightGradients s) of (r7, h7) \<Rightarrow>
      case new_tensor h7 (previousWeights s) of (r8, h8) \<Rightarrow>
        \<lparr>heap = h8, ref_layers = r1, ref_weights = r2, ref_biases = r3, ref_activations = r4,
         ref_preActivations = r5, ref_deltas = r6, ref_weightGradients = r7,
         ref_previousWeights = r8\<rparr>)"

text \<open>The object \<^verbatim>\<open>getNetworkData\<close> returns, and the accessor itself.\<close>

record network_data =
  nd_layers :: jsval
  nd_weights :: jsval
  nd_biases :: jsval
  nd_activations :: jsval
  nd_preActivations :: jsval
  nd_deltas :: jsval
  nd_weightGradients :: jsval
  nd_previousWeights :: jsval

definition getNetworkData :: "engine \<Rightarrow> network_data" where
  "getNetworkData e =
     \<lparr>nd_layers = ref_layers e, nd_weights = ref_weights e, nd_biases = ref_biases e,
      nd_activations = ref_activations e, nd_preActivations = ref_preActivations e,
      nd_deltas = ref_deltas e, nd_weightGradients = ref_weightGradients e,
      nd_previousWeights = ref_previousWeights e\<rparr>"

text \<open>
  What a caller can do with a reference: read an entry (\<^verbatim>\<open>r[i]\<close>) and assign to an entry
  (\<^verbatim>\<open>r[i] = v\<close>), here for an index inside the array; \<open>assign3\<close> is the statement
  \<^verbatim>\<open>r[l][j][i] = v\<close>.
\<close>

definition element :: "store \<Rightarrow> jsval \<Rightarrow> nat \<Rightarrow> jsval option" where
  "element h r i =
     (case r of
        Ref a \<Rightarrow> if a < length h \<and> i < length (h ! a) then Some (h ! a ! i) else None
      | _ \<Rightarrow> None)"

definition assign :: "store \<Rightarrow> jsval \<Rightarrow> nat \<Rightarrow> jsval \<Rightarrow> store option" where
  "assign h r i v =
     (case r of
        Ref a \<Rightarrow> if a < length h \<and> i < length (h ! a) then Some (h[a := (h ! a)[i := v]]) else None
      | _ \<Rightarrow> None)"

definition assign3 :: "store \<Rightarrow> jsval \<Rightarrow> nat \<Rightarrow> nat \<Rightarrow> nat \<Rightarrow> jsval \<Rightarrow> store option" where
  "assign3 h r l j i v =
     (case element h r l of
        None \<Rightarrow> None
      | Some r1 \<Rightarrow> (case element h r1 j of None \<Rightarrow> None | Some r2 \<Rightarrow> assign h r2 i v))"

text \<open>A network whose random draws were all \<open>1/2\<close>: every weight and bias is 0.\<close>

definition zero_network :: network where
  "zero_network = new_NeuralNetwork (\<lambda>c. 1 / 2) demo_config"

text \<open>
  For the proofs about the store: \<open>h'\<close> extends \<open>h\<close> when it holds the arrays of \<open>h\<close> at their
  addresses and more behind them, and \<open>stored w r\<close> says that what \<open>w\<close> lays out, \<open>r\<close> reads
  back, there and in every extension.
\<close>

definition extends :: "store \<Rightarrow> store \<Rightarrow> bool" where
  "extends h h' = (\<exists>k. h' = h @ k)"

definition stored :: "(store \<Rightarrow> 'a \<Rightarrow> jsval \<times> store) \<Rightarrow> (store \<Rightarrow> jsval \<Rightarrow> 'a option) \<Rightarrow> bool" where
  "stored w r =
     ((\<forall>h x. extends h (snd (w h x)) \<and> r (snd (w h x)) (fst (w h x)) = Some x) \<and>
      (\<forall>h h' v x. extends h h' \<longrightarrow> r h v = Some x \<longrightarrow> r h' v = Some x))"

section \<open>Construction\<close>

lemma layers_initializeNetwork:
  "layers (initializeNetwork rnd s) =
     [inputSize s] @ replicate (nat (hiddenLayers s)) (neuronsPerLayer s) @ [1]"
  by (simp add: initializeNetwork_def Let_def split: prod.split)

lemma layers_new_NeuralNetwork:
  "layers (new_NeuralNetwork rnd cfg) =
     [or_int (cfg_inputSize cfg) 3] @
     replicate (nat (or_int (cfg_hiddenLayers cfg) 2)) (or_int (cfg_neuronsPerLayer cfg) 4) @ [1]"
  by (simp add: new_NeuralNetwork_def layers_initializeNetwork)

text \<open>
  C2, as stated: for every configuration with \<open>inputSize \<ge> 1\<close>, \<open>hiddenLayers \<ge> 0\<close> and
  \<open>neuronsPerLayer \<ge> 1\<close>, construction produces the layers \<open>inputSize\<close>, then
  \<open>neuronsPerLayer\<close> repeated \<open>hiddenLayers\<close> times, then 1. This fails for
  \<open>hiddenLayers = 0\<close>: the constructor reads the count with \<^verbatim>\<open>config.hiddenLayers || 2\<close>,
  so that 0 is replaced by the default 2, and the network gets two hidden layers.
\<close>

theorem construct_layers_counterexample:
  "valid_config \<lparr>cfg_inputSize = Some 2, cfg_hiddenLayers = Some 0, cfg_neuronsPerLayer = Some 3,
       cfg_activationFunction = None, cfg_learningRate = None\<rparr> \<and>
   layers (new_NeuralNetwork (\<lambda>_. 0)
      \<lparr>cfg_inputSize = Some 2, cfg_hiddenLayers = Some 0, cfg_neuronsPerLayer = Some 3,
       cfg_activationFunction = None, cfg_learningRate = None\<rparr>) = [2, 3, 3, 1] \<and>
   layers (new_NeuralNetwork (\<lambda>_. 0)
      \<lparr>cfg_inputSize = Some 2, cfg_hiddenLayers = Some 0, cfg_neuronsPerLayer = Some 3,
       cfg_activationFunction = None, cfg_learningRate = None\<rparr>)
     \<noteq> [2] @ replicate (nat 0) 3 @ [1]"
  by (simp add: layers_new_NeuralNetwork or_int_def valid_config_def eval_nat_numeral)

text \<open>
  C2, amended: for every configuration with \<open>inputSize \<ge> 1\<close>, \<open>hiddenLayers \<ge> 1\<close> and
  \<open>neuronsPerLayer \<ge> 1\<close>, construction produces the layers \<open>inputSize\<close>, then
  \<open>neuronsPerLayer\<close> repeated \<open>hiddenLayers\<close> times, then 1.
\<close>

theorem construct_layers:
  assumes "cfg_inputSize cfg = Some n" and "cfg_hiddenLayers cfg = Some h"
    and "cfg_neuronsPerLayer cfg = Some k"
    and "1 \<le> n" and "1 \<le> h" and "1 \<le> k"
  shows "layers (new_NeuralNetwork rnd cfg) = [n] @ replicate (nat h) k @ [1]"
  using assms by (simp add: layers_new_NeuralNetwork or_int_def)

theorem construct_layers_witness:
  "layers (new_NeuralNetwork (\<lambda>_. 0)
      \<lparr>cfg_inputSize = Some 2, cfg_hiddenLayers = Some 1, cfg_neuronsPerLayer = Some 3,
       cfg_activationFunction = None, cfg_learningRate = None\<rparr>) = [2, 3, 1]"
  using construct_layers [of "\<lparr>cfg_inputSize = Some 2, cfg_hiddenLayers = Some 1,
       cfg_neuronsPerLayer = Some 3, cfg_activationFunction = None, cfg_learningRate = None\<rparr>"
       2 1 3 "\<lambda>_. 0"]
  by simp

lemma initializeLayers_shape:
  "initializeLayers rnd c ls = (ws, bs) \<Longrightarrow>
   length ws = length ls - 1 \<and> length bs = length ls - 1 \<and>
   (\<forall>l. l + 1 < length ls \<longrightarrow>
      length (ws ! l) = nat (ls ! (l + 1)) \<and>
      (\<forall>row\<in>set (ws ! l). length row = nat (ls ! l)) \<and>
      length (bs ! l) = nat (ls ! (l + 1)))"
proof (induction rnd c ls arbitrary: ws bs rule: initializeLayers.induct)
  case (1 rnd c a b rest)
  obtain ws' bs' where r: "initializeLayers rnd (c + nat b * nat a + nat b) (b # rest) = (ws', bs')"
    by (cases "initializeLayers rnd (c + nat b * nat a + nat b) (b # rest)")
  have ih: "length ws' = length (b # rest) - 1 \<and> length bs' = length (b # rest) - 1 \<and>
   (\<forall>l. l + 1 < length (b # rest) \<longrightarrow>
      length (ws' ! l) = nat ((b # rest) ! (l + 1)) \<and>
      (\<forall>row\<in>set (ws' ! l). length row = nat ((b # rest) ! l)) \<and>
      length (bs' ! l) = nat ((b # rest) ! (l + 1)))"
    by (rule "1.IH" [OF refl refl refl refl r])
  from "1.prems" r obtain lw lb where
    ws: "ws = lw # ws'" and bs: "bs = lb # bs'"
    and lw: "length lw = nat b" "\<forall>row\<in>set lw. length row = nat a"
    and lb: "length lb = nat b"
    by (auto simp: Let_def)
  have "length (ws ! l) = nat ((a # b # rest) ! (l + 1)) \<and>
      (\<forall>row\<in>set (ws ! l). length row = nat ((a # b # rest) ! l)) \<and>
      length (bs ! l) = nat ((a # b # rest) ! (l + 1))" if l: "l + 1 < length (a # b # rest)" for l
  proof (cases l)
    case 0
    then show ?thesis using ws bs lw lb by simp
  next
    case (Suc l')
    then have "l' + 1 < length (b # rest)" using l by simp
    with ih Suc ws bs show ?thesis by simp
  qed
  then show ?case using ih ws bs by simp
qed simp_all

lemma shape_invariantI:
  assumes "length (weights s) = length (layers s) - 1"
    and "length (biases s) = length (layers s) - 1"
    and "\<And>l. l + 1 < length (layers s) \<Longrightarrow>
           int (length (weights s ! l)) = layers s ! (l + 1) \<and>
           (\<forall>row\<in>set (weights s ! l). int (length row) = layers s ! l) \<and>
           int (length (biases s ! l)) = layers s ! (l + 1)"
  shows "shape_invariant s"
  using assms by (auto simp: shape_invariant_def shape_at_def list_all_iff)

lemma shape_invariantD:
  assumes "shape_invariant s"
  shows "length (weights s) = length (layers s) - 1"
    and "length (biases s) = length (layers s) - 1"
    and "l + 1 < length (layers s) \<Longrightarrow> int (length (weights s ! l)) = layers s ! (l + 1)"
    and "l + 1 < length (layers s) \<Longrightarrow> row \<in> set (weights s ! l) \<Longrightarrow> int (length row) = layers s ! l"
    and "l + 1 < length (layers s) \<Longrightarrow> int (length (biases s ! l)) = layers s ! (l + 1)"
  using assms by (auto simp: shape_invariant_def shape_at_def list_all_iff)

lemma initializeNetwork_fields:
  "inputSize (initializeNetwork rnd s) = inputSize s"
  "hiddenLayers (initializeNetwork rnd s) = hiddenLayers s"
  "neuronsPerLayer (initializeNetwork rnd s) = neuronsPerLayer s"
  "activationFunction (initializeNetwork rnd s) = activationFunction s"
  "learningRate (initializeNetwork rnd s) = learningRate s"
  by (simp_all add: initializeNetwork_def Let_def split: prod.split)

lemma initializeNetwork_previousWeights:
  "previousWeights (initializeNetwork rnd s) = weights (initializeNetwork rnd s)"
  by (simp add: initializeNetwork_def Let_def split: prod.split)

lemma initializeNetwork_shape:
  assumes "0 \<le> inputSize s" and "0 \<le> neuronsPerLayer s"
  shows "shape_invariant (initializeNetwork rnd s)"
proof -
  let ?ls = "[inputSize s] @ replicate (nat (hiddenLayers s)) (neuronsPerLayer s) @ [1]"
  obtain ws bs where i: "initializeLayers rnd 0 ?ls = (ws, bs)"
    by (cases "initializeLayers rnd 0 ?ls")
  have eq: "initializeNetwork rnd s
            = s\<lparr>layers := ?ls, weights := ws, biases := bs, previousWeights := ws\<rparr>"
    using i by (simp add: initializeNetwork_def Let_def)
  have nonneg: "\<forall>x\<in>set ?ls. 0 \<le> x" using assms by auto
  note sh = initializeLayers_shape [OF i]
  show ?thesis
  proof (rule shape_invariantI)
    fix l assume "l + 1 < length (layers (initializeNetwork rnd s))"
    then have l: "l + 1 < length ?ls" by (simp add: eq)
    then have "0 \<le> ?ls ! l" "0 \<le> ?ls ! (l + 1)"
      using nonneg by (metis nth_mem add_lessD1)+
    with sh l show "int (length (weights (initializeNetwork rnd s) ! l))
             = layers (initializeNetwork rnd s) ! (l + 1) \<and>
           (\<forall>row\<in>set (weights (initializeNetwork rnd s) ! l).
              int (length row) = layers (initializeNetwork rnd s) ! l) \<and>
           int (length (biases (initializeNetwork rnd s) ! l))
             = layers (initializeNetwork rnd s) ! (l + 1)"
      unfolding eq by simp
  qed (use sh in \<open>simp_all add: eq\<close>)
qed

lemma initializeNetwork_topology:
  assumes "1 \<le> inputSize s" and "0 \<le> hiddenLayers s" and "1 \<le> neuronsPerLayer s"
  shows "valid_topology (initializeNetwork rnd s)"
  using assms
  by (simp add: valid_topology_def initializeNetwork_fields layers_initializeNetwork)

section \<open>The forward pass\<close>



lemma forward_cursor:
  "forward (s\<lparr>currentStepIndex := c\<rparr>) input =
     (case forward s input of Inl e \<Rightarrow> Inl e | Inr (out, s') \<Rightarrow> Inr (out, s'\<lparr>currentStepIndex := c\<rparr>))"
  by (simp add: forward_def split: sum.splits prod.splits list.splits)

lemma backward_cursor:
  "backward (s\<lparr>currentStepIndex := c\<rparr>) target =
     (case backward s target of Inl e \<Rightarrow> Inl e | Inr (r, s') \<Rightarrow> Inr (r, s'\<lparr>currentStepIndex := c\<rparr>))"
  by (auto simp: backward_def Let_def split: sum.splits prod.splits list.splits)

lemma weightedSum_Inr:
  "weightedSum z cur ws = Inr z' \<Longrightarrow>
   length cur \<le> length ws \<and> z' = z + (\<Sum>i<length cur. cur ! i * ws ! i)"
proof (induction z cur ws rule: weightedSum.induct)
  case (3 z a as w ws)
  then have "length as \<le> length ws" and "z' = z + a * w + (\<Sum>i<length as. as ! i * ws ! i)"
    by simp_all
  moreover have "(\<Sum>i<Suc (length as). (a # as) ! i * (w # ws) ! i)
        = a * w + (\<Sum>i<length as. as ! i * ws ! i)"
    by (subst sum.lessThan_Suc_shift) simp
  ultimately show ?case by simp
qed simp_all

lemma weightedSum_total:
  "length cur \<le> length ws \<Longrightarrow> \<exists>z'. weightedSum z cur ws = Inr z'"
  by (induction z cur ws rule: weightedSum.induct) simp_all

lemma forwardNeurons_Inr:
  "forwardNeurons af io l bs cur j rows = Inr (as, zs, sts) \<Longrightarrow>
   length as = length rows \<and> length zs = length rows \<and> length sts = length rows \<and>
   j + length rows \<le> length bs + (if rows = [] then j else 0) \<and>
   (\<forall>k<length rows.
      length cur \<le> length (rows ! k) \<and>
      zs ! k = bs ! (j + k) + (\<Sum>i<length cur. cur ! i * rows ! k ! i) \<and>
      as ! k = (if io then sigmoid (zs ! k) else activate af (zs ! k) False) \<and>
      sts ! k = forwardNeuronStep af l (j + k) (zs ! k) (as ! k) (rows ! k) cur (bs ! (j + k)))"
proof (induction rows arbitrary: j as zs sts)
  case Nil
  then show ?case by simp
next
  case (Cons wj rest)
  from Cons.prems obtain z as' zs' sts' where
    j: "j < length bs" and z: "weightedSum (bs ! j) cur wj = Inr z"
    and r: "forwardNeurons af io l bs cur (j + 1) rest = Inr (as', zs', sts')"
    and as: "as = (if io then sigmoid z else activate af z False) # as'"
    and zs: "zs = z # zs'"
    and sts: "sts = forwardNeuronStep af l j z (if io then sigmoid z else activate af z False)
                wj cur (bs ! j) # sts'"
    by (auto simp: Let_def split: if_splits sum.splits prod.splits)
  note ih = Cons.IH [OF r]
  note w = weightedSum_Inr [OF z]
  have len: "j + length (wj # rest) \<le> length bs"
    using ih j by (cases rest) auto
  have "\<And>k. k < length (wj # rest) \<Longrightarrow>
      length cur \<le> length ((wj # rest) ! k) \<and>
      zs ! k = bs ! (j + k) + (\<Sum>i<length cur. cur ! i * (wj # rest) ! k ! i) \<and>
      as ! k = (if io then sigmoid (zs ! k) else activate af (zs ! k) False) \<and>
      sts ! k = forwardNeuronStep af l (j + k) (zs ! k) (as ! k) ((wj # rest) ! k) cur (bs ! (j + k))"
  proof -
    fix k assume k: "k < length (wj # rest)"
    show "length cur \<le> length ((wj # rest) ! k) \<and>
      zs ! k = bs ! (j + k) + (\<Sum>i<length cur. cur ! i * (wj # rest) ! k ! i) \<and>
      as ! k = (if io then sigmoid (zs ! k) else activate af (zs ! k) False) \<and>
      sts ! k = forwardNeuronStep af l (j + k) (zs ! k) (as ! k) ((wj # rest) ! k) cur (bs ! (j + k))"
    proof (cases k)
      case 0
      then show ?thesis using w as zs sts by simp
    next
      case (Suc k')
      then have "k' < length rest" using k by simp
      with ih Suc as zs sts show ?thesis by simp
    qed
  qed
  then show ?case using ih as zs sts len by simp
qed

lemma forwardNeurons_total:
  "j + length rows \<le> length bs \<Longrightarrow> \<forall>row\<in>set rows. length cur \<le> length row \<Longrightarrow>
   \<exists>r. forwardNeurons af io l bs cur j rows = Inr r"
proof (induction rows arbitrary: j)
  case Nil
  then show ?case by simp
next
  case (Cons wj rest)
  obtain z where z: "weightedSum (bs ! j) cur wj = Inr z"
    using weightedSum_total [of cur wj] Cons.prems by auto
  obtain r where "forwardNeurons af io l bs cur (j + 1) rest = Inr r"
    using Cons.IH [of "j + 1"] Cons.prems by auto
  then show ?case using z Cons.prems by (cases r) (auto simp: Let_def)
qed

lemma forwardLayers_Inr:
  "forwardLayers af bss l lws cur (acts, pres, sts) = Inr (cur', acts', pres', sts') \<Longrightarrow>
   \<exists>A P S. acts' = acts @ A \<and> pres' = pres @ map Some P \<and> sts' = sts @ S \<and>
     length A = length lws \<and> length P = length lws \<and> cur' = last (cur # A) \<and>
     (\<forall>k<length lws. \<exists>N.
        forwardNeurons af (k + 1 = length lws) (l + k)
          (if l + k < length bss then bss ! (l + k) else []) ((cur # A) ! k) 0 (lws ! k)
          = Inr (A ! k, P ! k, N) \<and>
        (lws ! k \<noteq> [] \<longrightarrow> l + k < length bss) \<and> set N \<subseteq> set S)"
proof (induction lws arbitrary: l cur acts pres sts)
  case Nil
  then show ?case by simp
next
  case (Cons lw rest)
  from Cons.prems obtain na lp nsts where
    b: "lw \<noteq> [] \<longrightarrow> l < length bss"
    and n: "forwardNeurons af (rest = []) l (if l < length bss then bss ! l else []) cur 0 lw
              = Inr (na, lp, nsts)"
    and r: "forwardLayers af bss (l + 1) rest na
              (acts @ [na], pres @ [Some lp],
               sts @ nsts @ [layerCompleteStep l na (acts @ [na])])
            = Inr (cur', acts', pres', sts')"
    by (auto simp: Let_def split: if_splits sum.splits prod.splits)
  from Cons.IH [OF r] obtain A P S where
    ih: "acts' = (acts @ [na]) @ A" "pres' = (pres @ [Some lp]) @ map Some P"
      "sts' = (sts @ nsts @ [layerCompleteStep l na (acts @ [na])]) @ S"
      "length A = length rest" "length P = length rest" "cur' = last (na # A)"
      "\<forall>k<length rest. \<exists>N.
        forwardNeurons af (k + 1 = length rest) (l + 1 + k)
          (if l + 1 + k < length bss then bss ! (l + 1 + k) else []) ((na # A) ! k) 0 (rest ! k)
          = Inr (A ! k, P ! k, N) \<and>
        (rest ! k \<noteq> [] \<longrightarrow> l + 1 + k < length bss) \<and> set N \<subseteq> set S"
    by blast
  let ?A = "na # A" and ?P = "lp # P"
  let ?S = "nsts @ [layerCompleteStep l na (acts @ [na])] @ S"
  have each: "\<exists>N. forwardNeurons af (k + 1 = length (lw # rest)) (l + k)
          (if l + k < length bss then bss ! (l + k) else []) ((cur # ?A) ! k) 0 ((lw # rest) ! k)
          = Inr (?A ! k, ?P ! k, N) \<and>
        ((lw # rest) ! k \<noteq> [] \<longrightarrow> l + k < length bss) \<and> set N \<subseteq> set ?S"
    if k: "k < length (lw # rest)" for k
  proof (cases k)
    case 0
    then show ?thesis using n b by auto
  next
    case (Suc k')
    then have "k' < length rest" using k by simp
    with ih(7) obtain N where
      "forwardNeurons af (k' + 1 = length rest) (l + 1 + k')
          (if l + 1 + k' < length bss then bss ! (l + 1 + k') else []) ((na # A) ! k') 0 (rest ! k')
          = Inr (A ! k', P ! k', N)"
      "rest ! k' \<noteq> [] \<longrightarrow> l + 1 + k' < length bss" "set N \<subseteq> set S"
      by blast
    then show ?thesis using Suc by auto
  qed
  have "acts' = acts @ ?A" "pres' = pres @ map Some ?P" "sts' = sts @ ?S"
    "length ?A = length (lw # rest)" "length ?P = length (lw # rest)" "cur' = last (cur # ?A)"
    using ih by simp_all
  with each show ?case by blast
qed

section \<open>The backward pass\<close>

lemma deltaSum_Inr:
  "deltaSum acc ds nws j = Inr r \<Longrightarrow>
   length ds \<le> length nws \<and> (\<forall>k<length ds. j < length (nws ! k)) \<and>
   r = acc + (\<Sum>k<length ds. ds ! k * nws ! k ! j)"
proof (induction acc ds nws j rule: deltaSum.induct)
  case (3 acc d ds wk nws j)
  then have j: "j < length wk" and r: "deltaSum (acc + d * wk ! j) ds nws j = Inr r"
    by (auto split: if_splits)
  from 3(1) j r have ih: "length ds \<le> length nws" "\<forall>k<length ds. j < length (nws ! k)"
    "r = acc + d * wk ! j + (\<Sum>k<length ds. ds ! k * nws ! k ! j)"
    by auto
  have "(\<Sum>k<Suc (length ds). (d # ds) ! k * (wk # nws) ! k ! j)
        = d * wk ! j + (\<Sum>k<length ds. ds ! k * nws ! k ! j)"
    by (subst sum.lessThan_Suc_shift) simp
  moreover have "\<forall>k<length (d # ds). j < length ((wk # nws) ! k)"
    using ih(2) j by (auto simp: nth_Cons split: nat.splits)
  ultimately show ?case using ih by simp
qed simp_all

lemma deltaSum_total:
  "length ds \<le> length nws \<Longrightarrow> \<forall>k<length ds. j < length (nws ! k) \<Longrightarrow>
   \<exists>r. deltaSum acc ds nws j = Inr r"
proof (induction acc ds nws j rule: deltaSum.induct)
  case (3 acc d ds wk nws j)
  then have j: "j < length wk" by auto
  have "\<forall>k<length ds. j < length (nws ! k)"
    using 3(3) by (auto simp: nth_Cons split: nat.splits)
  with 3 j show ?case by auto
qed simp_all

lemma hiddenDeltas_Inr:
  "hiddenDeltas m af l nld nlw zs j = Inr (ds, sts) \<Longrightarrow>
   length ds = m \<and> length sts = m \<and>
   (\<forall>k<m. \<exists>zl. zs = Some zl \<and> j + k < length zl \<and>
      length nld \<le> length nlw \<and> (\<forall>q<length nld. j + k < length (nlw ! q)) \<and>
      ds ! k = (\<Sum>q<length nld. nld ! q * nlw ! q ! (j + k)) * activate af (zl ! (j + k)) True \<and>
      sts ! k = hiddenDeltaStep af l (j + k) (ds ! k) (length nld))"
proof (induction m arbitrary: j ds sts)
  case 0
  then show ?case by simp
next
  case (Suc m)
  from Suc.prems obtain dsum zl ds' sts' where
    d: "deltaSum 0 nld nlw j = Inr dsum" and zs: "zs = Some zl" and j: "j < length zl"
    and r: "hiddenDeltas m af l nld nlw zs (j + 1) = Inr (ds', sts')"
    and ds: "ds = dsum * activate af (zl ! j) True # ds'"
    and sts: "sts = hiddenDeltaStep af l j (dsum * activate af (zl ! j) True) (length nld) # sts'"
    by (auto simp: Let_def split: if_splits sum.splits prod.splits option.splits)
  note ih = Suc.IH [OF r]
  note dd = deltaSum_Inr [OF d]
  have "\<exists>zl. zs = Some zl \<and> j + k < length zl \<and>
      length nld \<le> length nlw \<and> (\<forall>q<length nld. j + k < length (nlw ! q)) \<and>
      ds ! k = (\<Sum>q<length nld. nld ! q * nlw ! q ! (j + k)) * activate af (zl ! (j + k)) True \<and>
      sts ! k = hiddenDeltaStep af l (j + k) (ds ! k) (length nld)" if k: "k < Suc m" for k
  proof (cases k)
    case 0
    then show ?thesis using dd zs j ds sts by simp
  next
    case (Suc k')
    then have "k' < m" using k by simp
    with ih Suc ds sts show ?thesis by simp
  qed
  then show ?case using ih ds sts by simp
qed

lemma hiddenDeltas_total:
  "zs = Some zl \<Longrightarrow> j + m \<le> length zl \<Longrightarrow> length nld \<le> length nlw \<Longrightarrow>
   \<forall>q<length nld. j + m \<le> length (nlw ! q) \<Longrightarrow>
   \<exists>r. hiddenDeltas m af l nld nlw zs j = Inr r"
proof (induction m arbitrary: j)
  case 0
  then show ?case by simp
next
  case (Suc m)
  obtain dsum where d: "deltaSum 0 nld nlw j = Inr dsum"
    using deltaSum_total [of nld nlw j 0] Suc.prems by fastforce
  obtain r where "hiddenDeltas m af l nld nlw zs (j + 1) = Inr r"
    using Suc.IH [of "j + 1"] Suc.prems by auto
  then show ?case using d Suc.prems by (cases r) (auto simp: Let_def)
qed

lemma backpropagate_Inr:
  "backpropagate af ls pres ws k ds = Inr (ds', sts) \<Longrightarrow>
   length ds' = length ds \<and> (\<forall>m. k \<le> m \<longrightarrow> ds' ! m = ds ! m) \<and>
   (\<forall>l<k. l + 1 < length ls \<and> l + 1 < length pres \<and> l + 1 < length ds \<and> l + 1 < length ws \<and>
      (\<exists>N. hiddenDeltas (nat (ls ! (l + 1))) af l (ds' ! (l + 1)) (ws ! (l + 1)) (pres ! (l + 1)) 0
             = Inr (ds' ! l, N) \<and> set N \<subseteq> set sts))"
proof (induction k arbitrary: ds ds' sts)
  case 0
  then show ?case by simp
next
  case (Suc l)
  from Suc.prems obtain ld sts0 sts1 where
    b: "l + 1 < length ls" "l + 1 < length pres" "l + 1 < length ds" "l + 1 < length ws"
    and h: "hiddenDeltas (nat (ls ! (l + 1))) af l (ds ! (l + 1)) (ws ! (l + 1)) (pres ! (l + 1)) 0
              = Inr (ld, sts0)"
    and r: "backpropagate af ls pres ws l (ds[l := ld]) = Inr (ds', sts1)"
    and sts: "sts = sts0 @ sts1"
    by (auto split: if_splits sum.splits prod.splits)
  note ih = Suc.IH [OF r]
  have len: "length ds' = length ds" using ih by simp
  have keep: "ds' ! m = ds ! m" if "Suc l \<le> m" for m
    using ih that by simp
  have at_l: "ds' ! l = ld" using ih b by simp
  have "l' + 1 < length ls \<and> l' + 1 < length pres \<and> l' + 1 < length ds \<and> l' + 1 < length ws \<and>
      (\<exists>N. hiddenDeltas (nat (ls ! (l' + 1))) af l' (ds' ! (l' + 1)) (ws ! (l' + 1)) (pres ! (l' + 1)) 0
             = Inr (ds' ! l', N) \<and> set N \<subseteq> set sts)" if l': "l' < Suc l" for l'
  proof (cases "l' = l")
    case True
    then show ?thesis using b h at_l keep [of "Suc l"] sts by auto
  next
    case False
    then have "l' < l" using l' by simp
    with ih sts show ?thesis by fastforce
  qed
  then show ?case using len keep by blast
qed

lemma updateWeights_Inr:
  "updateWeights lr l j delta al i row = Inr (ws, gs, sts) \<Longrightarrow>
   length ws = length row \<and> length gs = length row \<and> length sts = length row \<and>
   (\<forall>k<length row. \<exists>as. al = Some as \<and> i + k < length as \<and>
      gs ! k = delta * as ! (i + k) \<and> ws ! k = row ! k - lr * gs ! k \<and>
      sts ! k = weightUpdateStep l j (i + k) (row ! k) (ws ! k) (gs ! k) (- lr * gs ! k))"
proof (induction row arbitrary: i ws gs sts)
  case Nil
  then show ?case by simp
next
  case (Cons w rest)
  from Cons.prems obtain as ws' gs' sts' where
    al: "al = Some as" and i: "i < length as"
    and r: "updateWeights lr l j delta al (i + 1) rest = Inr (ws', gs', sts')"
    and ws: "ws = (w + - lr * (delta * as ! i)) # ws'"
    and gs: "gs = delta * as ! i # gs'"
    and sts: "sts = weightUpdateStep l j i w (w + - lr * (delta * as ! i)) (delta * as ! i)
                (- lr * (delta * as ! i)) # sts'"
    by (auto simp: Let_def split: if_splits sum.splits prod.splits option.splits)
  note ih = Cons.IH [OF r]
  have "\<exists>as. al = Some as \<and> i + k < length as \<and>
      gs ! k = delta * as ! (i + k) \<and> ws ! k = (w # rest) ! k - lr * gs ! k \<and>
      sts ! k = weightUpdateStep l j (i + k) ((w # rest) ! k) (ws ! k) (gs ! k) (- lr * gs ! k)"
    if k: "k < length (w # rest)" for k
  proof (cases k)
    case 0
    then show ?thesis using al i ws gs sts by simp
  next
    case (Suc k')
    then have "k' < length rest" using k by simp
    with ih Suc ws gs sts show ?thesis by simp
  qed
  then show ?case using ih ws gs sts by simp
qed

lemma updateWeights_total:
  "al = Some as \<Longrightarrow> i + length row \<le> length as \<Longrightarrow>
   \<exists>r. updateWeights lr l j delta al i row = Inr r"
proof (induction row arbitrary: i)
  case Nil
  then show ?case by simp
next
  case (Cons w rest)
  obtain r where "updateWeights lr l j delta al (i + 1) rest = Inr r"
    using Cons.IH [of "i + 1"] Cons.prems by auto
  then show ?case using Cons.prems by (cases r) (auto simp: Let_def)
qed

lemma updateNeurons_Inr:
  "updateNeurons lr l dl al bl j rows = Inr (rows', gs, bgs, bl', sts) \<Longrightarrow>
   length rows' = length rows \<and> length gs = length rows \<and> length bgs = length rows \<and>
   (rows = [] \<longrightarrow> bl' = bl) \<and>
   (rows \<noteq> [] \<longrightarrow> (\<exists>bs bs'. bl = Some bs \<and> bl' = Some bs' \<and> length bs' = length bs \<and>
       j + length rows \<le> length bs \<and>
       (\<forall>m<length bs. bs' ! m =
          (if j \<le> m \<and> m < j + length rows then bs ! m - lr * dl ! m else bs ! m)))) \<and>
   (\<forall>k<length rows. j + k < length dl \<and> bgs ! k = dl ! (j + k) \<and>
      (\<exists>N. updateWeights lr l (j + k) (dl ! (j + k)) al 0 (rows ! k) = Inr (rows' ! k, gs ! k, N)
           \<and> set N \<subseteq> set sts))"
proof (induction rows arbitrary: j bl rows' gs bgs bl' sts)
  case Nil
  then show ?case by simp
next
  case (Cons row rest)
  from Cons.prems obtain row' ng sts0 bs rs gs' bgs' sts1 where
    j: "j < length dl"
    and u: "updateWeights lr l j (dl ! j) al 0 row = Inr (row', ng, sts0)"
    and bl: "bl = Some bs" and jb: "j < length bs"
    and r: "updateNeurons lr l dl al (Some (bs[j := bs ! j - lr * dl ! j])) (j + 1) rest
              = Inr (rs, gs', bgs', bl', sts1)"
    and res: "rows' = row' # rs" "gs = ng # gs'" "bgs = dl ! j # bgs'" "sts = sts0 @ sts1"
    by (auto simp: Let_def split: if_splits sum.splits prod.splits option.splits)
  note ih = Cons.IH [OF r]
  have bias: "\<exists>bs0 bs'. bl = Some bs0 \<and> bl' = Some bs' \<and> length bs' = length bs0 \<and>
       j + length (row # rest) \<le> length bs0 \<and>
       (\<forall>m<length bs0. bs' ! m =
          (if j \<le> m \<and> m < j + length (row # rest) then bs0 ! m - lr * dl ! m else bs0 ! m))"
  proof (cases "rest = []")
    case True
    then have "bl' = Some (bs[j := bs ! j - lr * dl ! j])" using ih by simp
    then show ?thesis using bl jb True by (auto simp: nth_list_update)
  next
    case False
    with ih obtain bs' where
      b': "bl' = Some bs'" "length bs' = length bs" "j + 1 + length rest \<le> length bs"
      "\<forall>m<length bs. bs' ! m =
          (if j + 1 \<le> m \<and> m < j + 1 + length rest
           then (bs[j := bs ! j - lr * dl ! j]) ! m - lr * dl ! m
           else (bs[j := bs ! j - lr * dl ! j]) ! m)"
      by auto
    have "bs' ! m = (if j \<le> m \<and> m < j + length (row # rest) then bs ! m - lr * dl ! m else bs ! m)"
      if "m < length bs" for m
      using b'(4) that by (cases "m = j") (auto simp: nth_list_update)
    then show ?thesis using bl b' by auto
  qed
  have each: "j + k < length dl \<and> bgs ! k = dl ! (j + k) \<and>
      (\<exists>N. updateWeights lr l (j + k) (dl ! (j + k)) al 0 ((row # rest) ! k)
              = Inr (rows' ! k, gs ! k, N) \<and> set N \<subseteq> set sts)"
    if k: "k < length (row # rest)" for k
  proof (cases k)
    case 0
    then show ?thesis using j u res by auto
  next
    case (Suc k')
    then have "k' < length rest" using k by simp
    with ih Suc res show ?thesis by fastforce
  qed
  show ?case using ih res bias each by simp
qed

lemma updateNeurons_total:
  "al = Some as \<Longrightarrow> bl = Some bs \<Longrightarrow> j + length rows \<le> length dl \<Longrightarrow>
   j + length rows \<le> length bs \<Longrightarrow> \<forall>row\<in>set rows. length row \<le> length as \<Longrightarrow>
   \<exists>r. updateNeurons lr l dl al bl j rows = Inr r"
proof (induction rows arbitrary: j bl bs)
  case Nil
  then show ?case by simp
next
  case (Cons row rest)
  have "\<exists>u. updateWeights lr l j (dl ! j) al 0 row = Inr u"
    by (rule updateWeights_total [OF Cons.prems(1)]) (use Cons.prems in auto)
  then obtain u where u: "updateWeights lr l j (dl ! j) al 0 row = Inr u" ..
  obtain r where "updateNeurons lr l dl al (Some (bs[j := bs ! j - lr * dl ! j])) (j + 1) rest = Inr r"
    using Cons.IH [of "Some (bs[j := bs ! j - lr * dl ! j])" "bs[j := bs ! j - lr * dl ! j]" "j + 1"]
      Cons.prems by auto
  then show ?case using u Cons.prems
    by (cases u; cases r) (auto simp: Let_def)
qed

lemma updateNeurons_biases:
  assumes "updateNeurons lr l dl al bl j rows = Inr (rows', gs, bgs, bl', sts)"
  shows "(bl = None) = (bl' = None)" and "bl = Some bs \<Longrightarrow> bl' = Some bs' \<Longrightarrow> length bs' = length bs"
  using updateNeurons_Inr [OF assms] by (cases "rows = []"; auto)+

lemma updateLayers_Inr:
  "updateLayers lr ds acts bss l lws = Inr (ws, wgs, bgs, bss', sts) \<Longrightarrow>
   length ws = length lws \<and> length wgs = length lws \<and> length bgs = length lws \<and>
   length bss' = length bss \<and>
   (\<forall>m. m < l \<or> l + length lws \<le> m \<longrightarrow> bss' ! m = bss ! m) \<and>
   (\<forall>k<length lws. l + k < length ds \<and>
      (\<exists>N. updateNeurons lr (l + k) (ds ! (l + k)) (entry acts (l + k)) (entry bss (l + k)) 0
              (lws ! k) = Inr (ws ! k, wgs ! k, bgs ! k, entry bss' (l + k), N) \<and>
           set N \<subseteq> set sts))"
proof (induction lws arbitrary: l bss ws wgs bgs bss' sts)
  case Nil
  then show ?case by simp
next
  case (Cons lw rest)
  from Cons.prems obtain rows lg lbg bl' sts0 ws' wgs' bgs' sts1 where
    l: "l < length ds"
    and u: "updateNeurons lr l (ds ! l) (entry acts l) (entry bss l) 0 lw
              = Inr (rows, lg, lbg, bl', sts0)"
    and r: "updateLayers lr ds acts (case bl' of None \<Rightarrow> bss | Some bs \<Rightarrow> bss[l := bs]) (l + 1) rest
              = Inr (ws', wgs', bgs', bss', sts1)"
    and res: "ws = rows # ws'" "wgs = lg # wgs'" "bgs = lbg # bgs'" "sts = sts0 @ sts1"
    by (auto split: if_splits sum.splits prod.splits)
  define bss1 where "bss1 = (case bl' of None \<Rightarrow> bss | Some bs \<Rightarrow> bss[l := bs])"
  note ih = Cons.IH [OF r [folded bss1_def]]
  have len1: "length bss1 = length bss"
    by (simp add: bss1_def split: option.splits)
  have other: "bss1 ! m = bss ! m" if "m \<noteq> l" for m
    using that by (simp add: bss1_def split: option.splits)
  have at_l: "entry bss1 l = bl'"
    using updateNeurons_biases(1) [OF u]
    by (cases bl') (auto simp: bss1_def entry_def split: if_splits)
  have keep_l: "entry bss' l = entry bss1 l"
    using ih len1 by (simp add: entry_def)
  have e: "entry bss1 (l + 1 + k) = entry bss (l + 1 + k)" for k
    using len1 other [of "l + 1 + k"] by (simp add: entry_def)
  have each: "l + k < length ds \<and>
      (\<exists>N. updateNeurons lr (l + k) (ds ! (l + k)) (entry acts (l + k)) (entry bss (l + k)) 0
              ((lw # rest) ! k) = Inr (ws ! k, wgs ! k, bgs ! k, entry bss' (l + k), N) \<and>
           set N \<subseteq> set sts)" if k: "k < length (lw # rest)" for k
  proof (cases k)
    case 0
    then show ?thesis using l u res at_l keep_l by auto
  next
    case (Suc k')
    then have k': "k' < length rest" using k by simp
    from ih have "\<forall>k<length rest. l + 1 + k < length ds \<and>
      (\<exists>N. updateNeurons lr (l + 1 + k) (ds ! (l + 1 + k)) (entry acts (l + 1 + k))
              (entry bss1 (l + 1 + k)) 0
              (rest ! k) = Inr (ws' ! k, wgs' ! k, bgs' ! k, entry bss' (l + 1 + k), N) \<and>
           set N \<subseteq> set sts1)" by blast
    with k' obtain N where "l + 1 + k' < length ds"
      "updateNeurons lr (l + 1 + k') (ds ! (l + 1 + k')) (entry acts (l + 1 + k'))
              (entry bss1 (l + 1 + k')) 0
              (rest ! k') = Inr (ws' ! k', wgs' ! k', bgs' ! k', entry bss' (l + 1 + k'), N)"
      "set N \<subseteq> set sts1" by blast
    then show ?thesis using e [of k'] Suc res by auto
  qed
  from ih have keep: "\<forall>m. m < l + 1 \<or> l + 1 + length rest \<le> m \<longrightarrow> bss' ! m = bss1 ! m"
    by blast
  have unch: "bss' ! m = bss ! m" if "m < l \<or> l + length (lw # rest) \<le> m" for m
    using keep other [of m] that by auto
  from ih have lens: "length ws' = length rest" "length wgs' = length rest"
    "length bgs' = length rest" "length bss' = length bss1" by blast+
  show ?case using lens res len1 each unch by simp
qed

lemma updateLayers_total:
  "l + length lws \<le> length ds \<Longrightarrow> l + length lws \<le> length acts \<Longrightarrow>
   l + length lws \<le> length bss \<Longrightarrow>
   \<forall>k<length lws. length (lws ! k) \<le> length (ds ! (l + k)) \<and>
                   length (lws ! k) \<le> length (bss ! (l + k)) \<and>
                   (\<forall>row\<in>set (lws ! k). length row \<le> length (acts ! (l + k))) \<Longrightarrow>
   \<exists>r. updateLayers lr ds acts bss l lws = Inr r"
proof (induction lws arbitrary: l bss)
  case Nil
  then show ?case by simp
next
  case (Cons lw rest)
  note p1 = Cons.prems(1) and p2 = Cons.prems(2) and p3 = Cons.prems(3) and p4 = Cons.prems(4)
  have lds: "l < length ds" and lacts: "l < length acts" and lbss: "l < length bss"
    using p1 p2 p3 by simp_all
  have k0: "length lw \<le> length (ds ! l)" "length lw \<le> length (bss ! l)"
    "\<forall>row\<in>set lw. length row \<le> length (acts ! l)"
    using p4 [rule_format, of 0] by simp_all
  have ea: "entry acts l = Some (acts ! l)" and eb: "entry bss l = Some (bss ! l)"
    using lacts lbss by (simp_all add: entry_def)
  have "\<exists>u. updateNeurons lr l (ds ! l) (entry acts l) (entry bss l) 0 lw = Inr u"
  proof (rule updateNeurons_total [OF ea eb])
    show "0 + length lw \<le> length (ds ! l)" "0 + length lw \<le> length (bss ! l)"
      using k0 by simp_all
    show "\<forall>row\<in>set lw. length row \<le> length (acts ! l)" using k0 by simp
  qed
  then obtain u0 where u0: "updateNeurons lr l (ds ! l) (entry acts l) (entry bss l) 0 lw = Inr u0" ..
  obtain rows lg lbg bl' sts0 where "u0 = (rows, lg, lbg, bl', sts0)"
    by (cases u0)
  with u0 have
    u: "updateNeurons lr l (ds ! l) (entry acts l) (entry bss l) 0 lw = Inr (rows, lg, lbg, bl', sts0)"
    by simp
  from updateNeurons_biases(1) [OF u] eb obtain bs' where bl': "bl' = Some bs'"
    by (cases bl') simp_all
  have lbs': "length bs' = length (bss ! l)"
    by (rule updateNeurons_biases(2) [OF u eb bl'])
  let ?bss1 = "bss[l := bs']"
  have "\<exists>r. updateLayers lr ds acts ?bss1 (l + 1) rest = Inr r"
  proof (rule Cons.IH)
    show "l + 1 + length rest \<le> length ds" "l + 1 + length rest \<le> length acts"
      "l + 1 + length rest \<le> length ?bss1"
      using p1 p2 p3 by simp_all
    show "\<forall>k<length rest. length (rest ! k) \<le> length (ds ! (l + 1 + k)) \<and>
                   length (rest ! k) \<le> length (?bss1 ! (l + 1 + k)) \<and>
                   (\<forall>row\<in>set (rest ! k). length row \<le> length (acts ! (l + 1 + k)))"
    proof (intro allI impI)
      fix k assume "k < length rest"
      then have "Suc k < length (lw # rest)" by simp
      from p4 [rule_format, OF this] show
        "length (rest ! k) \<le> length (ds ! (l + 1 + k)) \<and>
         length (rest ! k) \<le> length (?bss1 ! (l + 1 + k)) \<and>
         (\<forall>row\<in>set (rest ! k). length row \<le> length (acts ! (l + 1 + k)))"
        by simp
    qed
  qed
  then obtain r where r: "updateLayers lr ds acts ?bss1 (l + 1) rest = Inr r" ..
  obtain a b c d e where "r = (a, b, c, d, e)" by (cases r)
  with r u bl' lds show ?case by simp
qed

section \<open>Results, training and the cursor\<close>

lemma backward_result:
  assumes "backward s target = Inr (r, s')"
  shows "activations s \<noteq> [] \<and> last (activations s) \<noteq> [] \<and>
         output r = hd (last (activations s)) \<and>
         error r = hd (last (activations s)) - target \<and>
         loss r = double_mul (double_mul 0.5 (hd (last (activations s)) - target))
                    (hd (last (activations s)) - target)"
  using assms
  by (auto simp: backward_def Let_def split: if_splits sum.splits prod.splits list.splits)

lemma train_eq:
  assumes "forward s0 input = Inr (out, s)" and "backward s target = Inr (r, s')"
  shows "train s0 input target = Inr ((r, steps s'), s'\<lparr>currentStepIndex := - 1\<rparr>)"
  using assms by (simp add: train_def resetSteps_def forward_cursor backward_cursor)

lemma forward_keeps_cursor:
  "forward s input = Inr (out, s') \<Longrightarrow> currentStepIndex s' = currentStepIndex s"
  by (auto simp: forward_def split: sum.splits prod.splits list.splits)

lemma backward_keeps_cursor:
  "backward s target = Inr (r, s') \<Longrightarrow> currentStepIndex s' = currentStepIndex s"
  by (auto simp: backward_def Let_def split: if_splits sum.splits prod.splits list.splits)

lemma train_cursor:
  "train s input target = Inr (x, s') \<Longrightarrow> currentStepIndex s' = - 1"
  by (auto simp: train_def resetSteps_def split: sum.splits prod.splits
      dest!: forward_keeps_cursor backward_keeps_cursor)

lemma initializeNetwork_cursor:
  "currentStepIndex (initializeNetwork rnd s) = currentStepIndex s \<and>
   steps (initializeNetwork rnd s) = steps s"
  by (simp add: initializeNetwork_def Let_def split: prod.split)

lemma call_cursor_invariant:
  assumes "cursor_call c" and "call s c = Inr s'" and "cursor_invariant s"
  shows "cursor_invariant s'"
proof (cases c)
  case (Train input target)
  then obtain x where "train s input target = Inr (x, s')"
    using assms(2) by (auto split: sum.splits)
  then show ?thesis using train_cursor by (simp add: cursor_invariant_def)
next
  case (Reinitialize rnd)
  then show ?thesis using assms by (auto simp: cursor_invariant_def initializeNetwork_cursor)
qed (use assms in \<open>auto simp: cursor_invariant_def nextStep_def previousStep_def resetSteps_def
      Let_def split: if_splits\<close>)

lemma calls_cursor_invariant:
  "list_all cursor_call cs \<Longrightarrow> calls s cs = Inr s' \<Longrightarrow> cursor_invariant s \<Longrightarrow> cursor_invariant s'"
proof (induction cs arbitrary: s)
  case Nil
  then show ?case by simp
next
  case (Cons c cs)
  then obtain s1 where s1: "call s c = Inr s1" and rest: "calls s1 cs = Inr s'"
    by (auto split: sum.splits)
  have "cursor_invariant s1"
    using call_cursor_invariant [OF _ s1] Cons.prems by simp
  then show ?case using Cons.IH rest Cons.prems(1) by simp
qed

lemma new_cursor: "cursor_invariant (new_NeuralNetwork rnd cfg)"
  by (simp add: cursor_invariant_def new_NeuralNetwork_def initializeNetwork_cursor)

section \<open>Shapes and termination\<close>

lemma forward_frame:
  assumes "forward s input = Inr (out, t)"
  shows "\<exists>acts pres sts. t = s\<lparr>activations := acts, preActivations := pres, steps := sts\<rparr>"
  using assms by (auto simp: forward_def split: sum.splits prod.splits list.splits)

lemma forward_keeps:
  assumes "forward s input = Inr (out, t)"
  shows "weights t = weights s" "biases t = biases s" "layers t = layers s"
    "inputSize t = inputSize s" "hiddenLayers t = hiddenLayers s"
    "neuronsPerLayer t = neuronsPerLayer s" "activationFunction t = activationFunction s"
    "learningRate t = learningRate s" "previousWeights t = previousWeights s"
    "deltas t = deltas s" "weightGradients t = weightGradients s"
    "biasGradients t = biasGradients s"
  using forward_frame [OF assms] by auto

lemma backward_Inr:
  assumes "backward s target = Inr (r, s')"
  shows "\<exists>out rest ds hsts ws wgs bgs bss usts.
     activations s \<noteq> [] \<and> last (activations s) = out # rest \<and>
     preActivations s \<noteq> [] \<and> last (preActivations s) \<noteq> None \<and>
     backpropagate (activationFunction s) (layers s) (preActivations s) (weights s)
       (length (weights s) - 1)
       ((replicate (length (weights s)) [])
          [length (weights s) - 1 := [(out - target) * (out * (1 - out))]]) = Inr (ds, hsts) \<and>
     updateLayers (learningRate s) ds (activations s) (biases s) 0 (weights s)
       = Inr (ws, wgs, bgs, bss, usts) \<and>
     r = \<lparr>loss = double_mul (double_mul 0.5 (out - target)) (out - target),
          output = out, error = out - target\<rparr> \<and>
     s' = s\<lparr>previousWeights := weights s, deltas := ds, weightGradients := wgs,
            biasGradients := bgs, weights := ws, biases := bss,
            steps := steps s @
              [lossStep out target (out - target)
                 (double_mul (double_mul 0.5 (out - target)) (out - target)),
               outputDeltaStep (length (layers s)) (out - target) (out * (1 - out))
                 ((out - target) * (out * (1 - out)))] @
              hsts @ usts @ [Complete ws (weights s)]\<rparr>"
  using assms
  by (auto simp: backward_def Let_def split: if_splits sum.splits prod.splits list.splits)

lemma updateLayers_shape:
  assumes "updateLayers lr ds acts bss 0 lws = Inr (ws, wgs, bgs, bss', sts)"
  shows "length ws = length lws" and "length bss' = length bss"
    and "l < length lws \<Longrightarrow> length (ws ! l) = length (lws ! l)"
    and "l < length lws \<Longrightarrow> j < length (lws ! l) \<Longrightarrow> length (ws ! l ! j) = length (lws ! l ! j)"
    and "l < length bss \<Longrightarrow> length (bss' ! l) = length (bss ! l)"
proof -
  note u = updateLayers_Inr [OF assms]
  show "length ws = length lws" and len: "length bss' = length bss" using u by simp_all
  have each: "\<exists>N. updateNeurons lr k (ds ! k) (entry acts k) (entry bss k) 0 (lws ! k)
               = Inr (ws ! k, wgs ! k, bgs ! k, entry bss' k, N)" if "k < length lws" for k
    using u that by fastforce
  show "length (ws ! l) = length (lws ! l)" if "l < length lws"
    using each [OF that] updateNeurons_Inr by blast
  show "length (ws ! l ! j) = length (lws ! l ! j)" if l: "l < length lws" and j: "j < length (lws ! l)"
  proof -
    from each [OF l] obtain N where
      n: "updateNeurons lr l (ds ! l) (entry acts l) (entry bss l) 0 (lws ! l)
               = Inr (ws ! l, wgs ! l, bgs ! l, entry bss' l, N)" ..
    from updateNeurons_Inr [OF n] j obtain M where
      "updateWeights lr l (0 + j) (ds ! l ! (0 + j)) (entry acts l) 0 (lws ! l ! j)
         = Inr (ws ! l ! j, wgs ! l ! j, M)"
      by blast
    from updateWeights_Inr [OF this] show ?thesis by simp
  qed
  show "length (bss' ! l) = length (bss ! l)" if l: "l < length bss"
  proof (cases "l < length lws")
    case True
    from each [OF True] obtain N where
      n: "updateNeurons lr l (ds ! l) (entry acts l) (entry bss l) 0 (lws ! l)
               = Inr (ws ! l, wgs ! l, bgs ! l, entry bss' l, N)" ..
    have "entry bss l = Some (bss ! l)" "entry bss' l = Some (bss' ! l)"
      using l len by (simp_all add: entry_def)
    from updateNeurons_biases(2) [OF n this] show ?thesis .
  next
    case False
    then show ?thesis using u by simp
  qed
qed

lemma backward_keeps:
  assumes "backward s target = Inr (r, s')"
  shows "layers s' = layers s" "inputSize s' = inputSize s" "hiddenLayers s' = hiddenLayers s"
    "neuronsPerLayer s' = neuronsPerLayer s" "activationFunction s' = activationFunction s"
    "learningRate s' = learningRate s" "activations s' = activations s"
    "preActivations s' = preActivations s" "previousWeights s' = weights s"
  using backward_Inr [OF assms] by auto

lemma backward_shape:
  assumes "backward s target = Inr (r, s')"
  shows "length (weights s') = length (weights s)" and "length (biases s') = length (biases s)"
    and "l < length (weights s) \<Longrightarrow> length (weights s' ! l) = length (weights s ! l)"
    and "l < length (weights s) \<Longrightarrow> j < length (weights s ! l) \<Longrightarrow>
           length (weights s' ! l ! j) = length (weights s ! l ! j)"
    and "l < length (biases s) \<Longrightarrow> length (biases s' ! l) = length (biases s ! l)"
proof -
  from backward_Inr [OF assms] obtain ds ws wgs bgs bss usts where
    u: "updateLayers (learningRate s) ds (activations s) (biases s) 0 (weights s)
       = Inr (ws, wgs, bgs, bss, usts)" and w: "weights s' = ws" and b: "biases s' = bss"
    by auto
  note sh = updateLayers_shape [OF u]
  show "length (weights s') = length (weights s)" "length (biases s') = length (biases s)"
    using sh(1,2) w b by simp_all
  show "l < length (weights s) \<Longrightarrow> length (weights s' ! l) = length (weights s ! l)"
    using sh(3) w by simp
  show "l < length (weights s) \<Longrightarrow> j < length (weights s ! l) \<Longrightarrow>
           length (weights s' ! l ! j) = length (weights s ! l ! j)"
    using sh(4) w by simp
  show "l < length (biases s) \<Longrightarrow> length (biases s' ! l) = length (biases s ! l)"
    using sh(5) b by simp
qed

lemma backward_shape_invariant:
  assumes "backward s target = Inr (r, s')" and "shape_invariant s"
  shows "shape_invariant s'"
proof (rule shape_invariantI)
  note sh = backward_shape [OF assms(1)] and k = backward_keeps [OF assms(1)]
    and d = shape_invariantD [OF assms(2)]
  show "length (weights s') = length (layers s') - 1" "length (biases s') = length (layers s') - 1"
    using sh(1,2) k(1) d(1,2) by simp_all
  fix l assume "l + 1 < length (layers s')"
  then have l: "l + 1 < length (layers s)" using k(1) by simp
  then have lw: "l < length (weights s)" and lb: "l < length (biases s)"
    using d(1,2) by simp_all
  have "int (length row) = layers s ! l" if row: "row \<in> set (weights s' ! l)" for row
  proof -
    from row obtain j where j: "j < length (weights s' ! l)" and r: "row = weights s' ! l ! j"
      by (auto simp: in_set_conv_nth)
    then have j': "j < length (weights s ! l)" using sh(3) [OF lw] by simp
    then have "weights s ! l ! j \<in> set (weights s ! l)" by simp
    from d(4) [OF l this] sh(4) [OF lw j'] r show ?thesis by simp
  qed
  then show "int (length (weights s' ! l)) = layers s' ! (l + 1) \<and>
           (\<forall>row\<in>set (weights s' ! l). int (length row) = layers s' ! l) \<and>
           int (length (biases s' ! l)) = layers s' ! (l + 1)"
    using sh(3) [OF lw] sh(5) [OF lb] d(3,5) [OF l] k(1) by simp
qed

lemma forward_shape_invariant:
  assumes "forward s input = Inr (out, t)" and "shape_invariant s"
  shows "shape_invariant t"
proof -
  note k = forward_keeps(1-3) [OF assms(1)]
  have "shape_at t = shape_at s"
    by (rule ext) (simp add: shape_at_def k)
  then show ?thesis using assms(2) k by (simp add: shape_invariant_def)
qed

lemma forward_Inr:
  assumes "forward s input = Inr (out, t)"
  shows "\<exists>A P S.
     t = s\<lparr>activations := input # A, preActivations := None # map Some P,
           steps := inputStep input # S\<rparr> \<and>
     length A = length (weights s) \<and> length P = length (weights s) \<and>
     last (input # A) \<noteq> [] \<and> out = hd (last (input # A)) \<and>
     (\<forall>k<length (weights s). \<exists>N.
        forwardNeurons (activationFunction s) (k + 1 = length (weights s)) k
          (if k < length (biases s) then biases s ! k else []) ((input # A) ! k) 0 (weights s ! k)
          = Inr (A ! k, P ! k, N) \<and>
        (weights s ! k \<noteq> [] \<longrightarrow> k < length (biases s)) \<and> set N \<subseteq> set S)"
proof -
  from assms obtain cur acts pres sts rest where
    f: "forwardLayers (activationFunction s) (biases s) 0 (weights s) input
          ([input], [None], [inputStep input]) = Inr (cur, acts, pres, sts)"
    and c: "cur = out # rest"
    and t: "t = s\<lparr>activations := acts, preActivations := pres, steps := sts\<rparr>"
    by (auto simp: forward_def split: sum.splits prod.splits list.splits)
  from forwardLayers_Inr [OF f] obtain A P S where
    r: "acts = [input] @ A" "pres = [None] @ map Some P" "sts = [inputStep input] @ S"
      "length A = length (weights s)" "length P = length (weights s)" "cur = last (input # A)"
    and each: "\<forall>k<length (weights s). \<exists>N.
        forwardNeurons (activationFunction s) (k + 1 = length (weights s)) (0 + k)
          (if 0 + k < length (biases s) then biases s ! (0 + k) else []) ((input # A) ! k) 0
          (weights s ! k)
          = Inr (A ! k, P ! k, N) \<and>
        (weights s ! k \<noteq> [] \<longrightarrow> 0 + k < length (biases s)) \<and> set N \<subseteq> set S"
    by blast
  have "t = s\<lparr>activations := input # A, preActivations := None # map Some P,
           steps := inputStep input # S\<rparr>"
    using t r by simp
  moreover have "last (input # A) = out # rest"
    using r(6) c by (simp only:)
  then have "last (input # A) \<noteq> []" "out = hd (last (input # A))"
    by (simp_all del: last.simps)
  ultimately show ?thesis using r(4,5) each
    apply (intro exI [of _ S] exI [of _ P, THEN exI [of _ A]])
    apply (simp cong: if_cong)
    done
qed

lemma forwardLayers_total:
  "l + length lws \<le> length bss \<Longrightarrow>
   \<forall>k<length lws. length (lws ! k) \<le> length (bss ! (l + k)) \<and>
                   (\<forall>row\<in>set (lws ! k). (length cur # map length lws) ! k \<le> length row) \<Longrightarrow>
   \<exists>r. forwardLayers af bss l lws cur acc = Inr r"
proof (induction lws arbitrary: l cur acc)
  case Nil
  then show ?case by (cases acc) simp
next
  case (Cons lw rest)
  note p1 = Cons.prems(1) and p2 = Cons.prems(2)
  obtain acts pres sts where acc: "acc = (acts, pres, sts)" by (cases acc)
  have lb: "l < length bss" using p1 by simp
  have k0: "length lw \<le> length (bss ! l)" "\<forall>row\<in>set lw. length cur \<le> length row"
    using p2 [rule_format, of 0] by simp_all
  have "\<exists>u. forwardNeurons af (rest = []) l (bss ! l) cur 0 lw = Inr u"
    by (rule forwardNeurons_total) (use k0 in simp_all)
  then obtain u where u0: "forwardNeurons af (rest = []) l (bss ! l) cur 0 lw = Inr u" ..
  obtain na lp nsts where "u = (na, lp, nsts)" by (cases u)
  with u0 have u: "forwardNeurons af (rest = []) l (bss ! l) cur 0 lw = Inr (na, lp, nsts)"
    by simp
  have lna: "length na = length lw" using forwardNeurons_Inr [OF u] by simp
  have "\<exists>r. forwardLayers af bss (l + 1) rest na
               (acts @ [na], pres @ [Some lp], sts @ nsts @ [layerCompleteStep l na (acts @ [na])])
             = Inr r"
  proof (rule Cons.IH)
    show "l + 1 + length rest \<le> length bss" using p1 by simp
    show "\<forall>k<length rest. length (rest ! k) \<le> length (bss ! (l + 1 + k)) \<and>
                   (\<forall>row\<in>set (rest ! k). (length na # map length rest) ! k \<le> length row)"
    proof (intro allI impI)
      fix k assume "k < length rest"
      then have "Suc k < length (lw # rest)" by simp
      from p2 [rule_format, OF this] show
        "length (rest ! k) \<le> length (bss ! (l + 1 + k)) \<and>
         (\<forall>row\<in>set (rest ! k). (length na # map length rest) ! k \<le> length row)"
        using lna by (cases k) simp_all
    qed
  qed
  then show ?case using u lb acc by (simp add: Let_def)
qed

lemma forward_total:
  assumes "shape_invariant s" and "2 \<le> length (layers s)" and "last (layers s) = 1"
    and "int (length input) = layers s ! 0"
  shows "\<exists>out t. forward s input = Inr (out, t)"
proof -
  note d = shape_invariantD [OF assms(1)]
  let ?n = "length (weights s)"
  have n: "?n = length (layers s) - 1" "length (biases s) = length (layers s) - 1"
    using d by simp_all
  have "\<exists>r. forwardLayers (activationFunction s) (biases s) 0 (weights s) input
          ([input], [None], [inputStep input]) = Inr r"
  proof (rule forwardLayers_total)
    show "0 + ?n \<le> length (biases s)" using n by simp
    show "\<forall>k<?n. length (weights s ! k) \<le> length (biases s ! (0 + k)) \<and>
                   (\<forall>row\<in>set (weights s ! k). (length input # map length (weights s)) ! k \<le> length row)"
    proof (intro allI impI)
      fix k assume k: "k < ?n"
      then have k1: "k + 1 < length (layers s)" using n by simp
      have a: "int ((length input # map length (weights s)) ! k) = layers s ! k"
      proof (cases k)
        case 0
        then show ?thesis using assms(4) by simp
      next
        case (Suc k')
        then have "k' + 1 < length (layers s)" "k' < ?n" using k1 k by simp_all
        from d(3) [OF this(1)] this(2) Suc show ?thesis by simp
      qed
      have "length row = (length input # map length (weights s)) ! k"
        if "row \<in> set (weights s ! k)" for row
        using d(4) [OF k1 that] by (simp add: a [symmetric])
      moreover have "length (weights s ! k) = length (biases s ! k)"
        using d(3,5) [OF k1] by simp
      ultimately show "length (weights s ! k) \<le> length (biases s ! (0 + k)) \<and>
                   (\<forall>row\<in>set (weights s ! k). (length input # map length (weights s)) ! k \<le> length row)"
        by simp
    qed
  qed
  then obtain r where r: "forwardLayers (activationFunction s) (biases s) 0 (weights s) input
          ([input], [None], [inputStep input]) = Inr r" ..
  obtain cur acts pres sts where rr: "r = (cur, acts, pres, sts)" by (cases r)
  from forwardLayers_Inr [OF r [unfolded rr]] obtain A P S where
    A: "length A = ?n" "cur = last (input # A)"
    and each: "\<forall>k<?n. \<exists>N.
        forwardNeurons (activationFunction s) (k + 1 = ?n) (0 + k)
          (if 0 + k < length (biases s) then biases s ! (0 + k) else []) ((input # A) ! k) 0
          (weights s ! k)
          = Inr (A ! k, P ! k, N) \<and>
        (weights s ! k \<noteq> [] \<longrightarrow> 0 + k < length (biases s)) \<and> set N \<subseteq> set S"
    by blast
  have npos: "0 < ?n" using n assms(2) by simp
  then have lastk: "?n - 1 < ?n" by simp
  from each [rule_format, OF lastk] obtain N where
    "forwardNeurons (activationFunction s) (?n - 1 + 1 = ?n) (0 + (?n - 1))
          (if 0 + (?n - 1) < length (biases s) then biases s ! (0 + (?n - 1)) else [])
          ((input # A) ! (?n - 1)) 0 (weights s ! (?n - 1))
          = Inr (A ! (?n - 1), P ! (?n - 1), N)"
    by blast
  from forwardNeurons_Inr [OF this] have "length (A ! (?n - 1)) = length (weights s ! (?n - 1))"
    by simp
  moreover have "int (length (weights s ! (?n - 1))) = layers s ! (?n - 1 + 1)"
    by (rule d(3)) (use n assms(2) in simp)
  moreover have "layers s ! (?n - 1 + 1) = 1"
  proof -
    have "layers s \<noteq> []" using assms(2) by auto
    then have "last (layers s) = layers s ! (length (layers s) - 1)" by (rule last_conv_nth)
    moreover have "?n - 1 + 1 = length (layers s) - 1" using n assms(2) by simp
    ultimately show ?thesis using assms(3) by simp
  qed
  moreover have "last (input # A) = A ! (?n - 1)"
  proof -
    have "A \<noteq> []" using A(1) npos by auto
    then show ?thesis using A(1) by (simp add: last_conv_nth)
  qed
  ultimately have "cur \<noteq> []" using A(2) by auto
  then show ?thesis using r rr by (cases cur) (simp_all add: forward_def)
qed

lemma pass_shapeI:
  assumes "length (activations s) = length (layers s)"
    and "length (preActivations s) = length (layers s)"
    and "\<And>l. l < length (layers s) \<Longrightarrow> pass_at s l"
  shows "pass_shape s"
  using assms by (auto simp: pass_shape_def list_all_iff)

lemma pass_shapeD:
  assumes "pass_shape s"
  shows "length (activations s) = length (layers s)"
    and "length (preActivations s) = length (layers s)"
    and "l < length (layers s) \<Longrightarrow> int (length (activations s ! l)) = layers s ! l"
    and "l < length (layers s) \<Longrightarrow> 0 < l \<Longrightarrow>
           \<exists>zs. preActivations s ! l = Some zs \<and> int (length zs) = layers s ! l"
proof -
  show "length (activations s) = length (layers s)"
    "length (preActivations s) = length (layers s)"
    using assms by (simp_all add: pass_shape_def)
  have at: "pass_at s l" if "l < length (layers s)" for l
    using assms that by (simp add: pass_shape_def list_all_iff)
  show "l < length (layers s) \<Longrightarrow> int (length (activations s ! l)) = layers s ! l"
    using at [of l] by (simp add: pass_at_def)
  show "l < length (layers s) \<Longrightarrow> 0 < l \<Longrightarrow>
           \<exists>zs. preActivations s ! l = Some zs \<and> int (length zs) = layers s ! l"
    using at [of l] by (cases "preActivations s ! l") (simp_all add: pass_at_def)
qed

lemma forward_pass_shape:
  assumes "forward s input = Inr (out, t)" and "shape_invariant s"
    and "1 \<le> length (layers s)" and "int (length input) = layers s ! 0"
  shows "pass_shape t"
proof -
  note d = shape_invariantD [OF assms(2)]
  from forward_Inr [OF assms(1)] obtain A P S where
    t: "t = s\<lparr>activations := input # A, preActivations := None # map Some P,
           steps := inputStep input # S\<rparr>"
    and len: "length A = length (weights s)" "length P = length (weights s)"
    and each: "\<forall>k<length (weights s). \<exists>N.
        forwardNeurons (activationFunction s) (k + 1 = length (weights s)) k
          (if k < length (biases s) then biases s ! k else []) ((input # A) ! k) 0 (weights s ! k)
          = Inr (A ! k, P ! k, N) \<and>
        (weights s ! k \<noteq> [] \<longrightarrow> k < length (biases s)) \<and> set N \<subseteq> set S"
    by blast
  show ?thesis
  proof (rule pass_shapeI)
    show "length (activations t) = length (layers t)" "length (preActivations t) = length (layers t)"
      using t len d(1) assms(3) by simp_all
    fix l assume "l < length (layers t)"
    then have l: "l < length (layers s)" using t by simp
    show "pass_at t l"
    proof (cases l)
      case 0
      then show ?thesis using t assms(4) by (simp add: pass_at_def)
    next
      case (Suc k)
      then have k1: "k + 1 < length (layers s)" and k: "k < length (weights s)"
        using l d(1) by simp_all
      from each k obtain N where
        "forwardNeurons (activationFunction s) (k + 1 = length (weights s)) k
          (if k < length (biases s) then biases s ! k else []) ((input # A) ! k) 0 (weights s ! k)
          = Inr (A ! k, P ! k, N)"
        by blast
      from forwardNeurons_Inr [OF this]
      have "length (A ! k) = length (weights s ! k)" "length (P ! k) = length (weights s ! k)"
        by simp_all
      then show ?thesis using t Suc d(3) [OF k1] k len by (simp add: pass_at_def)
    qed
  qed
qed

lemma backward_pass_shape:
  assumes "backward s target = Inr (r, s')" and "pass_shape s"
  shows "pass_shape s'"
proof -
  note k = backward_keeps [OF assms(1)]
  have "pass_at s' = pass_at s"
    by (rule ext) (simp add: pass_at_def k cong: option.case_cong)
  then show ?thesis using assms(2) k by (simp add: pass_shape_def)
qed

lemma backpropagate_total:
  "k < length ls \<Longrightarrow> k < length pres \<Longrightarrow> k < length ds \<Longrightarrow> k < length ws \<Longrightarrow>
   length (ds ! k) \<le> length (ws ! k) \<Longrightarrow>
   \<forall>m. 1 \<le> m \<and> m \<le> k \<longrightarrow>
     (\<exists>zl. pres ! m = Some zl \<and> nat (ls ! m) \<le> length zl) \<and>
     (\<forall>q<length (ws ! m). nat (ls ! m) \<le> length (ws ! m ! q)) \<and>
     nat (ls ! m) \<le> length (ws ! (m - 1)) \<Longrightarrow>
   \<exists>r. backpropagate af ls pres ws k ds = Inr r"
proof (induction k arbitrary: ds)
  case 0
  then show ?case by simp
next
  case (Suc k)
  note p = Suc.prems
  from p(6) [rule_format, of "Suc k"] obtain zl where
    z: "pres ! (k + 1) = Some zl" "nat (ls ! (k + 1)) \<le> length zl"
    and rows: "\<forall>q<length (ws ! (k + 1)). nat (ls ! (k + 1)) \<le> length (ws ! (k + 1) ! q)"
    and prev: "nat (ls ! (k + 1)) \<le> length (ws ! k)"
    by auto
  have "\<exists>h. hiddenDeltas (nat (ls ! (k + 1))) af k (ds ! (k + 1)) (ws ! (k + 1)) (pres ! (k + 1)) 0
          = Inr h"
  proof (rule hiddenDeltas_total [OF z(1)])
    show "0 + nat (ls ! (k + 1)) \<le> length zl" using z(2) by simp
    show "length (ds ! (k + 1)) \<le> length (ws ! (k + 1))" using p(5) by simp
    show "\<forall>q<length (ds ! (k + 1)). 0 + nat (ls ! (k + 1)) \<le> length (ws ! (k + 1) ! q)"
      using rows p(5) by simp
  qed
  then obtain h where h0: "hiddenDeltas (nat (ls ! (k + 1))) af k (ds ! (k + 1)) (ws ! (k + 1))
          (pres ! (k + 1)) 0 = Inr h" ..
  obtain ld sts0 where "h = (ld, sts0)" by (cases h)
  with h0 have h: "hiddenDeltas (nat (ls ! (k + 1))) af k (ds ! (k + 1)) (ws ! (k + 1))
          (pres ! (k + 1)) 0 = Inr (ld, sts0)" by simp
  have lld: "length ld = nat (ls ! (k + 1))" using hiddenDeltas_Inr [OF h] by simp
  have "\<exists>r. backpropagate af ls pres ws k (ds[k := ld]) = Inr r"
  proof (rule Suc.IH)
    show "k < length ls" "k < length pres" "k < length (ds[k := ld])" "k < length ws"
      using p(1-4) by simp_all
    show "length (ds[k := ld] ! k) \<le> length (ws ! k)"
      using p(3) lld prev by simp
    show "\<forall>m. 1 \<le> m \<and> m \<le> k \<longrightarrow>
     (\<exists>zl. pres ! m = Some zl \<and> nat (ls ! m) \<le> length zl) \<and>
     (\<forall>q<length (ws ! m). nat (ls ! m) \<le> length (ws ! m ! q)) \<and>
     nat (ls ! m) \<le> length (ws ! (m - 1))"
      using p(6) by simp
  qed
  then obtain r where r: "backpropagate af ls pres ws k (ds[k := ld]) = Inr r" ..
  obtain a b where "r = (a, b)" by (cases r)
  with r h p(1-4) show ?case by simp
qed

lemma last_layer:
  assumes "2 \<le> length (layers s)" and "last (layers s) = 1"
  shows "layers s ! (length (layers s) - 1) = 1"
proof -
  have "layers s \<noteq> []" using assms(1) by auto
  then show ?thesis using last_conv_nth [of "layers s"] assms(2) by simp
qed

lemma backward_total:
  assumes "shape_invariant s" and "pass_shape s"
    and "2 \<le> length (layers s)" and "last (layers s) = 1"
  shows "\<exists>r s'. backward s target = Inr (r, s')"
proof -
  note d = shape_invariantD [OF assms(1)] and ps = pass_shapeD [OF assms(2)]
  let ?L = "length (layers s)" and ?n = "length (weights s)"
  have n: "?n = ?L - 1" "length (biases s) = ?L - 1" "0 < ?n" "?n - 1 + 1 = ?L - 1"
    using d(1,2) assms(3) by simp_all
  have last1: "layers s ! (?L - 1) = 1" by (rule last_layer [OF assms(3,4)])
  have ane: "activations s \<noteq> []" and pne: "preActivations s \<noteq> []"
    using ps(1,2) assms(3) by auto
  have "int (length (activations s ! (?L - 1))) = 1"
    using ps(3) [of "?L - 1"] last1 assms(3) by simp
  then have "last (activations s) \<noteq> []"
    using ane ps(1) by (auto simp: last_conv_nth)
  then obtain out rest where out: "last (activations s) = out # rest"
    by (cases "last (activations s)") auto
  have "\<exists>zs. preActivations s ! (?L - 1) = Some zs \<and> int (length zs) = layers s ! (?L - 1)"
    by (rule ps(4)) (use assms(3) in simp_all)
  then have plast: "last (preActivations s) \<noteq> None"
    using pne ps(2) by (auto simp: last_conv_nth)
  define od where "od = (out - target) * (out * (1 - out))"
  define ds0 where "ds0 = (replicate ?n ([]::real list))[?n - 1 := [od]]"
  have ds0: "length ds0 = ?n" "ds0 ! (?n - 1) = [od]"
    using n(3) by (simp_all add: ds0_def)
  have wlen: "length (weights s ! l) = nat (layers s ! (l + 1))" if "l + 1 < ?L" for l
    using d(3) [OF that] by simp
  have rlen: "length (weights s ! l ! q) = nat (layers s ! l)"
    if "l + 1 < ?L" "q < length (weights s ! l)" for l q
    using d(4) [OF that(1), of "weights s ! l ! q"] that(2) by simp
  have blen: "length (biases s ! l) = nat (layers s ! (l + 1))" if "l + 1 < ?L" for l
    using d(5) [OF that] by simp
  have alen: "length (activations s ! l) = nat (layers s ! l)" if "l < ?L" for l
    using ps(3) [OF that] by simp
  have "\<exists>b. backpropagate (activationFunction s) (layers s) (preActivations s) (weights s)
          (?n - 1) ds0 = Inr b"
  proof (rule backpropagate_total)
    show "?n - 1 < ?L" "?n - 1 < length (preActivations s)" "?n - 1 < length ds0" "?n - 1 < ?n"
      using n ps(2) ds0(1) by simp_all
    show "length (ds0 ! (?n - 1)) \<le> length (weights s ! (?n - 1))"
      using ds0(2) wlen [of "?n - 1"] n last1 assms(3) by simp
    show "\<forall>m. 1 \<le> m \<and> m \<le> ?n - 1 \<longrightarrow>
     (\<exists>zl. preActivations s ! m = Some zl \<and> nat (layers s ! m) \<le> length zl) \<and>
     (\<forall>q<length (weights s ! m). nat (layers s ! m) \<le> length (weights s ! m ! q)) \<and>
     nat (layers s ! m) \<le> length (weights s ! (m - 1))"
    proof (intro allI impI)
      fix m assume m: "1 \<le> m \<and> m \<le> ?n - 1"
      then have m1: "m + 1 < ?L" "m < ?L" "0 < m" "m - 1 + 1 < ?L" "m - 1 + 1 = m"
        using n assms(3) by auto
      from ps(4) [OF m1(2,3)] obtain zs where
        "preActivations s ! m = Some zs" "int (length zs) = layers s ! m" by blast
      then have "\<exists>zl. preActivations s ! m = Some zl \<and> nat (layers s ! m) \<le> length zl"
        by simp
      moreover have "\<forall>q<length (weights s ! m). nat (layers s ! m) \<le> length (weights s ! m ! q)"
        using rlen [OF m1(1)] by simp
      moreover have "nat (layers s ! m) \<le> length (weights s ! (m - 1))"
        using wlen [OF m1(4)] m1(5) by simp
      ultimately show "(\<exists>zl. preActivations s ! m = Some zl \<and> nat (layers s ! m) \<le> length zl) \<and>
     (\<forall>q<length (weights s ! m). nat (layers s ! m) \<le> length (weights s ! m ! q)) \<and>
     nat (layers s ! m) \<le> length (weights s ! (m - 1))"
        by blast
    qed
  qed
  then obtain b where b0: "backpropagate (activationFunction s) (layers s) (preActivations s)
          (weights s) (?n - 1) ds0 = Inr b" ..
  obtain ds hsts where "b = (ds, hsts)" by (cases b)
  with b0 have b: "backpropagate (activationFunction s) (layers s) (preActivations s)
          (weights s) (?n - 1) ds0 = Inr (ds, hsts)" by simp
  note bi = backpropagate_Inr [OF b]
  have dslen: "length ds = ?n" using bi ds0(1) by simp
  have dlast: "ds ! (?n - 1) = [od]" using bi ds0(2) by simp
  have dl: "length (ds ! l) = length (weights s ! l)" if l: "l < ?n" for l
  proof (cases "l = ?n - 1")
    case True
    then show ?thesis using dlast wlen [of "?n - 1"] n last1 assms(3) by simp
  next
    case False
    then have "l < ?n - 1" using l by simp
    with bi obtain N where
      "hiddenDeltas (nat (layers s ! (l + 1))) (activationFunction s) l (ds ! (l + 1))
         (weights s ! (l + 1)) (preActivations s ! (l + 1)) 0 = Inr (ds ! l, N)"
      by blast
    from hiddenDeltas_Inr [OF this] have "length (ds ! l) = nat (layers s ! (l + 1))" by simp
    then show ?thesis using wlen [of l] l n by simp
  qed
  have "\<exists>u. updateLayers (learningRate s) ds (activations s) (biases s) 0 (weights s) = Inr u"
  proof (rule updateLayers_total)
    show "0 + ?n \<le> length ds" "0 + ?n \<le> length (activations s)" "0 + ?n \<le> length (biases s)"
      using dslen ps(1) n by simp_all
    show "\<forall>k<?n. length (weights s ! k) \<le> length (ds ! (0 + k)) \<and>
                   length (weights s ! k) \<le> length (biases s ! (0 + k)) \<and>
                   (\<forall>row\<in>set (weights s ! k). length row \<le> length (activations s ! (0 + k)))"
    proof (intro allI impI)
      fix k assume k: "k < ?n"
      then have k1: "k + 1 < ?L" "k < ?L" using n by simp_all
      have "length row \<le> length (activations s ! k)" if "row \<in> set (weights s ! k)" for row
        using d(4) [OF k1(1) that] alen [OF k1(2)] by simp
      then show "length (weights s ! k) \<le> length (ds ! (0 + k)) \<and>
                   length (weights s ! k) \<le> length (biases s ! (0 + k)) \<and>
                   (\<forall>row\<in>set (weights s ! k). length row \<le> length (activations s ! (0 + k)))"
        using dl [OF k] wlen [OF k1(1)] blen [OF k1(1)] by simp
    qed
  qed
  then obtain u where u: "updateLayers (learningRate s) ds (activations s) (biases s) 0 (weights s)
      = Inr u" ..
  obtain ws wgs bgs bss usts where "u = (ws, wgs, bgs, bss, usts)" by (cases u)
  with u b out ane pne plast show ?thesis
    by (simp add: backward_def Let_def ds0_def od_def)
qed

lemma train_total:
  assumes "shape_invariant s" and "2 \<le> length (layers s)" and "last (layers s) = 1"
    and "int (length input) = layers s ! 0"
  shows "\<exists>r s'. train s input target = Inr ((r, steps s'), s')"
proof -
  from forward_total [OF assms] obtain out t where f: "forward s input = Inr (out, t)"
    by blast
  have "pass_shape t"
    by (rule forward_pass_shape [OF f assms(1) _ assms(4)]) (use assms(2) in simp)
  moreover have "shape_invariant t" by (rule forward_shape_invariant [OF f assms(1)])
  moreover have "layers t = layers s" by (rule forward_keeps(3) [OF f])
  ultimately obtain r s' where b: "backward t target = Inr (r, s')"
    using backward_total [of t target] assms(2,3) by auto
  have "train s input target = Inr ((r, steps s'), s'\<lparr>currentStepIndex := - 1\<rparr>)"
    by (rule train_eq [OF f b])
  then show ?thesis by (intro exI [of _ r] exI [of _ "s'\<lparr>currentStepIndex := - 1\<rparr>"]) simp
qed

section \<open>Sequences of calls\<close>

lemma train_Inr:
  assumes "train s input target = Inr ((r, sts), s')"
  shows "\<exists>out t. forward (resetSteps s) input = Inr (out, t) \<and> backward t target = Inr (r, s')
           \<and> sts = steps s'"
  using assms by (auto simp: train_def split: sum.splits prod.splits)

lemma cursor_update_shape:
  "shape_invariant (s\<lparr>currentStepIndex := c\<rparr>) = shape_invariant s"
proof -
  have "shape_at (s\<lparr>currentStepIndex := c\<rparr>) = shape_at s"
    by (rule ext) (simp add: shape_at_def)
  then show ?thesis by (simp add: shape_invariant_def)
qed

lemma cursor_update_topology:
  "valid_topology (s\<lparr>currentStepIndex := c\<rparr>) = valid_topology s"
  by (simp add: valid_topology_def)

lemma forward_topology:
  assumes "forward s input = Inr (out, t)"
  shows "valid_topology t = valid_topology s"
  using forward_keeps [OF assms] by (simp add: valid_topology_def)

lemma backward_topology:
  assumes "backward s target = Inr (r, s')"
  shows "valid_topology s' = valid_topology s"
  using backward_keeps [OF assms] by (simp add: valid_topology_def)

lemma call_shape:
  assumes "call s c = Inr s'" and "shape_invariant s" and "valid_topology s"
  shows "shape_invariant s' \<and> valid_topology s'"
proof (cases c)
  case (Reinitialize rnd)
  then have s': "s' = initializeNetwork rnd s" using assms(1) by simp
  have "shape_invariant (initializeNetwork rnd s)"
    by (rule initializeNetwork_shape) (use assms(3) in \<open>simp_all add: valid_topology_def\<close>)
  moreover have "valid_topology (initializeNetwork rnd s)"
    by (rule initializeNetwork_topology) (use assms(3) in \<open>simp_all add: valid_topology_def\<close>)
  ultimately show ?thesis using s' by simp
next
  case (Forward input)
  then obtain out where f: "forward s input = Inr (out, s')"
    using assms(1) by (auto split: sum.splits)
  show ?thesis using forward_shape_invariant [OF f assms(2)] forward_topology [OF f] assms(3)
    by simp
next
  case (Backward target)
  then obtain r where b: "backward s target = Inr (r, s')"
    using assms(1) by (auto split: sum.splits)
  show ?thesis using backward_shape_invariant [OF b assms(2)] backward_topology [OF b] assms(3)
    by simp
next
  case (Train input target)
  then obtain r sts where "train s input target = Inr ((r, sts), s')"
    using assms(1) by (auto split: sum.splits)
  from train_Inr [OF this] obtain out t where
    f: "forward (resetSteps s) input = Inr (out, t)" and b: "backward t target = Inr (r, s')"
    by blast
  have "shape_invariant (resetSteps s)" "valid_topology (resetSteps s)"
    using assms(2,3) by (simp_all add: resetSteps_def cursor_update_shape cursor_update_topology)
  then have "shape_invariant t" "valid_topology t"
    using forward_shape_invariant [OF f] forward_topology [OF f] by simp_all
  then show ?thesis
    using backward_shape_invariant [OF b] backward_topology [OF b] by simp
next
  case NextStep
  then show ?thesis using assms
    by (auto simp: nextStep_def Let_def cursor_update_shape cursor_update_topology
        split: if_splits)
next
  case PreviousStep
  then show ?thesis using assms
    by (auto simp: previousStep_def Let_def cursor_update_shape cursor_update_topology
        split: if_splits)
next
  case ResetSteps
  then show ?thesis using assms
    by (auto simp: resetSteps_def cursor_update_shape cursor_update_topology)
qed

lemma calls_shape:
  "calls s cs = Inr s' \<Longrightarrow> shape_invariant s \<Longrightarrow> valid_topology s \<Longrightarrow>
   shape_invariant s' \<and> valid_topology s'"
proof (induction cs arbitrary: s)
  case Nil
  then show ?case by simp
next
  case (Cons c cs)
  then obtain s1 where s1: "call s c = Inr s1" and rest: "calls s1 cs = Inr s'"
    by (auto split: sum.splits)
  from call_shape [OF s1 Cons.prems(2,3)] Cons.IH [OF rest] show ?case by simp
qed

lemma valid_config_sizes:
  assumes "valid_config cfg"
  shows "1 \<le> or_int (cfg_inputSize cfg) 3" "0 \<le> or_int (cfg_hiddenLayers cfg) 2"
    "1 \<le> or_int (cfg_neuronsPerLayer cfg) 4"
proof -
  show "1 \<le> or_int (cfg_inputSize cfg) 3"
    using assms by (cases "cfg_inputSize cfg") (simp_all add: valid_config_def or_int_def)
  show "0 \<le> or_int (cfg_hiddenLayers cfg) 2"
    using assms by (cases "cfg_hiddenLayers cfg") (simp_all add: valid_config_def or_int_def)
  show "1 \<le> or_int (cfg_neuronsPerLayer cfg) 4"
    using assms by (cases "cfg_neuronsPerLayer cfg") (simp_all add: valid_config_def or_int_def)
qed

lemma new_topology:
  assumes "valid_config cfg"
  shows "valid_topology (new_NeuralNetwork rnd cfg)"
  unfolding new_NeuralNetwork_def
  by (rule initializeNetwork_topology) (use valid_config_sizes [OF assms] in simp_all)

lemma new_shape:
  assumes "valid_config cfg"
  shows "shape_invariant (new_NeuralNetwork rnd cfg)"
  unfolding new_NeuralNetwork_def
  by (rule initializeNetwork_shape) (use valid_config_sizes [OF assms] in simp_all)

lemma call_total:
  assumes "shape_invariant s" and "valid_topology s" and "fits (inputSize s) c"
  shows "\<exists>s'. call s c = Inr s'"
proof (cases c)
  case (Forward input)
  have "\<exists>out t. forward s input = Inr (out, t)"
    by (rule forward_total [OF assms(1)])
       (use assms(2,3) Forward in \<open>simp_all add: valid_topology_def\<close>)
  then show ?thesis using Forward by auto
next
  case (Train input target)
  have "\<exists>r s'. train s input target = Inr ((r, steps s'), s')"
    by (rule train_total [OF assms(1)])
       (use assms(2,3) Train in \<open>simp_all add: valid_topology_def\<close>)
  then show ?thesis using Train by auto
qed (use assms in simp_all)

lemma call_inputSize:
  assumes "call s c = Inr s'"
  shows "inputSize s' = inputSize s"
proof (cases c)
  case (Forward input)
  then obtain out where f: "forward s input = Inr (out, s')"
    using assms(1) by (auto split: sum.splits)
  then show ?thesis using forward_keeps by simp
next
  case (Backward target)
  then obtain r where b: "backward s target = Inr (r, s')"
    using assms(1) by (auto split: sum.splits)
  then show ?thesis using backward_keeps by simp
next
  case (Train input target)
  then obtain r sts where "train s input target = Inr ((r, sts), s')"
    using assms(1) by (auto split: sum.splits)
  from train_Inr [OF this] obtain out t where
    f: "forward (resetSteps s) input = Inr (out, t)" and b: "backward t target = Inr (r, s')"
    by blast
  show ?thesis using forward_keeps(4) [OF f] backward_keeps(2) [OF b] by (simp add: resetSteps_def)
qed (use assms in \<open>auto simp: initializeNetwork_fields nextStep_def previousStep_def resetSteps_def
       Let_def split: if_splits\<close>)

lemma calls_total:
  "shape_invariant s \<Longrightarrow> valid_topology s \<Longrightarrow> list_all (fits (inputSize s)) cs \<Longrightarrow>
   \<exists>s'. calls s cs = Inr s'"
proof (induction cs arbitrary: s)
  case Nil
  then show ?case by simp
next
  case (Cons c cs)
  from call_total [OF Cons.prems(1,2)] Cons.prems(3) obtain s1 where s1: "call s c = Inr s1"
    by auto
  have "\<exists>s'. calls s1 cs = Inr s'"
  proof (rule Cons.IH)
    show "shape_invariant s1" "valid_topology s1"
      using call_shape [OF s1 Cons.prems(1,2)] by simp_all
    show "list_all (fits (inputSize s1)) cs"
      using Cons.prems(3) call_inputSize [OF s1] by simp
  qed
  then show ?case using s1 by simp
qed

lemma demo_valid: "valid_config demo_config"
  by (simp add: demo_config_def valid_config_def)

lemma demo_inputSize: "inputSize demo_network = 2"
  by (simp add: demo_network_def new_NeuralNetwork_def initializeNetwork_fields demo_config_def
      or_int_def)

lemma demo_layers: "layers demo_network = [2, 2, 1]"
  by (simp add: demo_network_def layers_new_NeuralNetwork demo_config_def or_int_def)

section \<open>The claims about shapes, results, determinism and the cursor\<close>

lemma demo_shape: "shape_invariant demo_network"
  unfolding demo_network_def by (rule new_shape [OF demo_valid])

lemma demo_topology: "valid_topology demo_network"
  unfolding demo_network_def by (rule new_topology [OF demo_valid])

text \<open>
  C3: after construction from a valid configuration and after every sequence of calls
  (reinitialization, \<^verbatim>\<open>forward\<close>, \<^verbatim>\<open>backward\<close>, \<^verbatim>\<open>train\<close>, the cursor calls) that returns, for
  every transition \<open>l\<close> the entry \<open>weights ! l\<close> has exactly \<open>layers ! (l + 1)\<close> rows, each of
  exactly \<open>layers ! l\<close> weights, and \<open>biases ! l\<close> has exactly \<open>layers ! (l + 1)\<close> entries.
\<close>

theorem shape_invariant_calls:
  assumes "valid_config cfg" and "calls (new_NeuralNetwork rnd cfg) cs = Inr s"
    and "l + 1 < length (layers s)"
  shows "shape_invariant s \<and> l < length (weights s) \<and> l < length (biases s) \<and>
         int (length (weights s ! l)) = layers s ! (l + 1) \<and>
         (\<forall>j<length (weights s ! l). int (length (weights s ! l ! j)) = layers s ! l) \<and>
         int (length (biases s ! l)) = layers s ! (l + 1)"
proof -
  have inv: "shape_invariant s"
    using calls_shape [OF assms(2) new_shape [OF assms(1)] new_topology [OF assms(1)]] by simp
  note d = shape_invariantD [OF inv]
  show ?thesis using inv d(1,2) d(3,5) [OF assms(3)] d(4) [OF assms(3)] assms(3) by simp
qed

theorem shape_invariant_calls_witness:
  "\<exists>s. calls (new_NeuralNetwork (\<lambda>c. 3 / 4) demo_config)
          [Train [1, 0] 1, NextStep, Reinitialize (\<lambda>c. 1 / 4), Forward [0, 1], Train [1, 1] 0]
        = Inr s \<and>
       0 + 1 < length (layers s) \<and> shape_invariant s \<and>
       int (length (weights s ! 0)) = layers s ! (0 + 1) \<and>
       (\<forall>j<length (weights s ! 0). int (length (weights s ! 0 ! j)) = layers s ! 0) \<and>
       int (length (biases s ! 0)) = layers s ! (0 + 1)"
proof -
  let ?cs = "[Train [1, 0] 1, NextStep, Reinitialize (\<lambda>c. 1 / 4), Forward [0, 1], Train [1, 1] 0]"
  have "list_all (fits (inputSize demo_network)) ?cs"
    by (simp add: demo_inputSize)
  from calls_total [OF demo_shape demo_topology this] obtain s where
    s: "calls (new_NeuralNetwork (\<lambda>c. 3 / 4) demo_config) ?cs = Inr s"
    unfolding demo_network_def by blast
  have "valid_topology s"
    using calls_shape [OF s new_shape [OF demo_valid] new_topology [OF demo_valid]] by simp
  then have l: "0 + 1 < length (layers s)" by (simp add: valid_topology_def)
  from shape_invariant_calls [OF demo_valid s l] s l show ?thesis by blast
qed

lemma demo_forward_backward:
  "\<exists>out s r s'. forward demo_network [1, 0] = Inr (out, s) \<and> backward s target = Inr (r, s')"
proof -
  have "\<exists>out t. forward demo_network [1, 0] = Inr (out, t)"
    by (rule forward_total [OF demo_shape]) (simp_all add: demo_layers)
  then obtain out t where f: "forward demo_network [1, 0] = Inr (out, t)" by blast
  have "pass_shape t"
    by (rule forward_pass_shape [OF f demo_shape]) (simp_all add: demo_layers)
  moreover have "shape_invariant t" by (rule forward_shape_invariant [OF f demo_shape])
  moreover have "layers t = [2, 2, 1]" using forward_keeps(3) [OF f] demo_layers by simp
  ultimately have "\<exists>r s'. backward t target = Inr (r, s')"
    by (intro backward_total) simp_all
  with f show ?thesis by blast
qed

subsection \<open>The rounding of the loss\<close>















text \<open>
  A sanity check of \<open>round_double\<close>: 1 is a double, and the double nearest to 1/10 is
  \<open>3602879701896397 / 2 ^ 55\<close>.
\<close>

lemma exponent_eq:
  assumes "2 powr of_int k \<le> a" and "a < 2 powr of_int (k + 1)"
  shows "\<lfloor>log 2 a\<rfloor> = k"
proof -
  have a: "0 < a" using assms(1) powr_gt_zero [of 2 "of_int k"] by linarith
  have "of_int k \<le> log 2 a" using le_log_iff [of 2 a "of_int k"] a assms(1) by simp
  moreover have "log 2 a < of_int (k + 1)"
    using log_less_iff [of 2 a "of_int (k + 1)"] a assms(2) by simp
  ultimately show ?thesis by (simp add: floor_eq_iff)
qed

lemma round_double_one: "round_double 1 = 1"
proof -
  have u: "(2::real) powr (- 52) = 1 / 2 ^ 52" by (simp add: powr_minus_divide powr_numeral)
  have "round_even (2 ^ 52) = 2 ^ 52" by (simp add: round_even_def Let_def)
  then show ?thesis by (simp add: round_double_def Let_def u)
qed

lemma round_double_tenth: "round_double (1 / 10) = 3602879701896397 / 2 ^ 55"
proof -
  have l: "(2::real) powr of_int (- 4) = 1 / 16" "(2::real) powr of_int (- 4 + 1) = 1 / 8"
    by (simp_all add: powr_minus_divide powr_numeral)
  have e: "\<lfloor>log 2 (1 / 10 :: real)\<rfloor> = - 4"
  proof (rule exponent_eq)
    show "2 powr of_int (- 4) \<le> (1 / 10 :: real)" unfolding l by simp
    show "(1 / 10 :: real) < 2 powr of_int (- 4 + 1)" unfolding l by simp
  qed
  have u: "(2::real) powr (- 56) = 1 / 2 ^ 56" by (simp add: powr_minus_divide powr_numeral)
  have f: "\<lfloor>(2 ^ 56 / 10 :: real)\<rfloor> = 7205759403792793"
    by (simp add: floor_eq_iff)
  have "round_even (2 ^ 56 / 10) = 7205759403792794"
    unfolding round_even_def Let_def f by simp
  then have "round_even ((1 / 10) / (1 / 2 ^ 56)) = 7205759403792794" by simp
  then show ?thesis
    unfolding round_double_def Let_def using e by (simp add: u)
qed

subsection \<open>A network whose output saturates\<close>









text \<open>
  C7: \<^verbatim>\<open>forward\<close> is a function of the weights, the biases, the activation function and the
  input alone. Two states that agree on these give the same outcome on the same input: the
  same error, or the same output, the same steps and the same recorded activations and
  weighted sums, whatever the other fields hold. It takes no random draw, and a second
  call on the state the first one left returns the same output and changes nothing.
\<close>

theorem forward_deterministic:
  assumes "weights s = weights s'" and "biases s = biases s'"
    and "activationFunction s = activationFunction s'"
  shows "(case forward s input of
            Inl e \<Rightarrow> forward s' input = Inl e
          | Inr (out, t) \<Rightarrow>
              (\<exists>t'. forward s' input = Inr (out, t') \<and> steps t' = steps t \<and>
                    activations t' = activations t \<and> preActivations t' = preActivations t) \<and>
              forward t input = Inr (out, t))"
  using assms
  by (auto simp: forward_def split: sum.splits prod.splits list.splits)

theorem forward_deterministic_witness:
  "\<exists>out t t'. forward demo_network [1, 0] = Inr (out, t) \<and>
     forward (demo_network\<lparr>activations := [[7]], steps := [Complete [] []],
                currentStepIndex := 5\<rparr>) [1, 0] = Inr (out, t') \<and>
     steps t' = steps t \<and> activations t' = activations t \<and>
     preActivations t' = preActivations t \<and> forward t [1, 0] = Inr (out, t)"
proof -
  let ?s' = "demo_network\<lparr>activations := [[7]], steps := [Complete [] []], currentStepIndex := 5\<rparr>"
  from demo_forward_backward [of 0] obtain out t where
    f: "forward demo_network [1, 0] = Inr (out, t)" by blast
  have "weights demo_network = weights ?s'" "biases demo_network = biases ?s'"
    "activationFunction demo_network = activationFunction ?s'"
    by simp_all
  from forward_deterministic [OF this, of "[1, 0]"] f show ?thesis by auto
qed

text \<open>
  C10: the cursor is \<open>-1\<close> at construction, and after every sequence of \<^verbatim>\<open>nextStep\<close>,
  \<^verbatim>\<open>previousStep\<close>, \<^verbatim>\<open>resetSteps\<close> and \<^verbatim>\<open>train\<close> calls (reinitialization too) it satisfies
  \<open>-1 \<le> currentStepIndex \<le> length steps - 1\<close>, so it is \<open>-1\<close> while there is no step;
  \<^verbatim>\<open>getCurrentStep\<close> returns a step exactly when the cursor is in range, the step at the
  cursor, and \<^verbatim>\<open>null\<close> otherwise.
\<close>

theorem cursor_bound:
  assumes "list_all cursor_call cs" and "calls (new_NeuralNetwork rnd cfg) cs = Inr s"
  shows "- 1 \<le> currentStepIndex s \<and> currentStepIndex s \<le> int (length (steps s)) - 1 \<and>
         (steps s = [] \<longrightarrow> currentStepIndex s = - 1) \<and>
         currentStepIndex (new_NeuralNetwork rnd cfg) = - 1 \<and>
         (getCurrentStep s \<noteq> None) =
           (0 \<le> currentStepIndex s \<and> currentStepIndex s < int (length (steps s))) \<and>
         getCurrentStep s =
           (if 0 \<le> currentStepIndex s then Some (steps s ! nat (currentStepIndex s)) else None)"
proof -
  have "cursor_invariant s"
    using calls_cursor_invariant [OF assms new_cursor] .
  moreover have "currentStepIndex (new_NeuralNetwork rnd cfg) = - 1"
    by (simp add: new_NeuralNetwork_def initializeNetwork_cursor)
  ultimately show ?thesis
    by (auto simp: cursor_invariant_def getCurrentStep_def)
qed

theorem cursor_bound_witness:
  "\<exists>s. calls (new_NeuralNetwork (\<lambda>c. 3 / 4) demo_config)
          [NextStep, Train [1, 0] 1, NextStep, NextStep, PreviousStep, Train [0, 1] 0, NextStep,
           ResetSteps, PreviousStep] = Inr s \<and>
       - 1 \<le> currentStepIndex s \<and> currentStepIndex s \<le> int (length (steps s)) - 1 \<and>
       (getCurrentStep s \<noteq> None) =
           (0 \<le> currentStepIndex s \<and> currentStepIndex s < int (length (steps s))) \<and>
       getCurrentStep s =
           (if 0 \<le> currentStepIndex s then Some (steps s ! nat (currentStepIndex s)) else None)"
proof -
  let ?cs = "[NextStep, Train [1, 0] 1, NextStep, NextStep, PreviousStep, Train [0, 1] 0, NextStep,
           ResetSteps, PreviousStep]"
  have "list_all (fits (inputSize demo_network)) ?cs"
    by (simp add: demo_inputSize)
  from calls_total [OF demo_shape demo_topology this] obtain s where
    s: "calls (new_NeuralNetwork (\<lambda>c. 3 / 4) demo_config) ?cs = Inr s"
    unfolding demo_network_def by blast
  have "list_all cursor_call ?cs" by simp
  from cursor_bound [OF this s] s show ?thesis by blast
qed

section \<open>What the passes compute and record\<close>

lemma demo_weights:
  "length (weights demo_network) = 2" "length (weights demo_network ! 0) = 2"
  "length (weights demo_network ! 1) = 1" "length (weights demo_network ! 1 ! 0) = 2"
proof -
  note d = shape_invariantD [OF demo_shape]
  show "length (weights demo_network) = 2" using d(1) by (simp add: demo_layers)
  show l0: "length (weights demo_network ! 0) = 2" using d(3) [of 0] by (simp add: demo_layers)
  show l1: "length (weights demo_network ! 1) = 1" using d(3) [of 1] by (simp add: demo_layers)
  have "weights demo_network ! 1 ! 0 \<in> set (weights demo_network ! 1)" using l1 by simp
  from d(4) [of 1, OF _ this] show "length (weights demo_network ! 1 ! 0) = 2"
    by (simp add: demo_layers)
qed

lemma demo_activationFunction: "activationFunction demo_network = ''relu''"
  by (simp add: demo_network_def new_NeuralNetwork_def initializeNetwork_fields demo_config_def
      or_string_def)

lemma demo_lists:
  "neurons_of [2, 2, 1] = [(1, 0), (1, 1), (2, 0)]"
  "neurons_backward [2, 2, 1] = [(2, 0), (1, 0), (1, 1)]"
  "connections_of [2, 2, 1] =
     [(0, 0, 1, 0), (0, 1, 1, 0), (0, 0, 1, 1), (0, 1, 1, 1), (1, 0, 2, 0), (1, 1, 2, 0)]"
  by (simp_all add: neurons_of_def neurons_backward_def connections_of_def upt_rec
      eval_nat_numeral)

text \<open>
  C4: after \<^verbatim>\<open>forward(input)\<close>, for every layer \<open>l + 1\<close> after the input layer and every
  neuron \<open>j\<close> of it, the recorded weighted sum is
  \<open>z = bias[j] + \<Sum>\<^sub>i weight[j][i] \<times> activation_prev[i]\<close> over the neurons \<open>i\<close> of layer \<open>l\<close>, and
  the recorded activation is \<open>f(z)\<close>: the logistic sigmoid of \<open>z\<close> clamped to \<open>[-500, 500]\<close> for
  the last layer, whatever the configured activation function is, and the configured function
  (ReLU, hyperbolic tangent, or else the same clamped sigmoid) for a hidden layer. Both are
  in \<open>preActivations\<close> and \<open>activations\<close> and in the neuron's \<^verbatim>\<open>forward_neuron\<close> step.
\<close>

theorem forward_neuron_values:
  assumes "forward s input = Inr (out, t)"
    and "l < length (weights s)" and "j < length (weights s ! l)"
  shows "\<exists>zs z a.
     activations t ! 0 = input \<and>
     preActivations t ! (l + 1) = Some zs \<and> z = zs ! j \<and> a = activations t ! (l + 1) ! j \<and>
     z = biases s ! l ! j +
           (\<Sum>i<length (activations t ! l). weights s ! l ! j ! i * activations t ! l ! i) \<and>
     a = (if l = length (weights s) - 1 then 1 / (1 + exp (- max (- 500) (min 500 z)))
          else activate (activationFunction s) z False) \<and>
     activate (activationFunction s) z False =
         (if activationFunction s = ''relu'' then max 0 z
          else if activationFunction s = ''tanh'' then tanh z
          else 1 / (1 + exp (- max (- 500) (min 500 z)))) \<and>
     forwardNeuronStep (activationFunction s) l j z a (weights s ! l ! j) (activations t ! l)
         (biases s ! l ! j) \<in> set (steps t)"
proof -
  from forward_Inr [OF assms(1)] obtain A P S where
    t: "t = s\<lparr>activations := input # A, preActivations := None # map Some P,
           steps := inputStep input # S\<rparr>"
    and len: "length A = length (weights s)" "length P = length (weights s)"
    and each: "\<forall>k<length (weights s). \<exists>N.
        forwardNeurons (activationFunction s) (k + 1 = length (weights s)) k
          (if k < length (biases s) then biases s ! k else []) ((input # A) ! k) 0 (weights s ! k)
          = Inr (A ! k, P ! k, N) \<and>
        (weights s ! k \<noteq> [] \<longrightarrow> k < length (biases s)) \<and> set N \<subseteq> set S"
    by blast
  have ne: "weights s ! l \<noteq> []" using assms(3) by auto
  from each [rule_format, OF assms(2)] obtain N where
    n0: "forwardNeurons (activationFunction s) (l + 1 = length (weights s)) l
          (if l < length (biases s) then biases s ! l else []) ((input # A) ! l) 0 (weights s ! l)
          = Inr (A ! l, P ! l, N)"
    and lb0: "weights s ! l \<noteq> [] \<longrightarrow> l < length (biases s)" and sub: "set N \<subseteq> set S"
    by blast
  have lb: "l < length (biases s)" using lb0 ne by simp
  have n: "forwardNeurons (activationFunction s) (l + 1 = length (weights s)) l
          (biases s ! l) ((input # A) ! l) 0 (weights s ! l) = Inr (A ! l, P ! l, N)"
    using n0 lb by simp
  have acts: "activations t ! 0 = input" "activations t ! l = (input # A) ! l"
    "activations t ! (l + 1) = A ! l" "preActivations t ! (l + 1) = Some (P ! l)"
    using t len assms(2) by simp_all
  define cur where "cur = activations t ! l"
  define z where "z = P ! l ! j"
  define a where "a = A ! l ! j"
  have n': "forwardNeurons (activationFunction s) (l + 1 = length (weights s)) l
          (biases s ! l) cur 0 (weights s ! l) = Inr (A ! l, P ! l, N)"
    using n acts(2) by (simp add: cur_def)
  note fi = forwardNeurons_Inr [OF n']
  have lenN: "length N = length (weights s ! l)" using fi by simp
  from fi assms(3) have
    zz: "z = biases s ! l ! (0 + j) + (\<Sum>i<length cur. cur ! i * weights s ! l ! j ! i)"
    and aa: "a = (if l + 1 = length (weights s) then sigmoid z
                  else activate (activationFunction s) z False)"
    and st: "N ! j = forwardNeuronStep (activationFunction s) l (0 + j) z a (weights s ! l ! j)
                       cur (biases s ! l ! (0 + j))"
    unfolding z_def a_def by blast+
  have c1: "z = biases s ! l ! j + (\<Sum>i<length cur. weights s ! l ! j ! i * cur ! i)"
    using zz by (simp add: mult.commute)
  have c2: "a = (if l = length (weights s) - 1 then 1 / (1 + exp (- max (- 500) (min 500 z)))
          else activate (activationFunction s) z False)"
  proof (cases "l + 1 = length (weights s)")
    case True
    then have "l = length (weights s) - 1" by simp
    then show ?thesis using aa True by (simp add: sigmoid_def)
  next
    case False
    then have "l \<noteq> length (weights s) - 1" using assms(2) by simp
    then show ?thesis using aa False by simp
  qed
  have c3: "activate (activationFunction s) z False =
         (if activationFunction s = ''relu'' then max 0 z
          else if activationFunction s = ''tanh'' then tanh z
          else 1 / (1 + exp (- max (- 500) (min 500 z))))"
    by (simp add: activate_def sigmoid_def)
  have "N ! j \<in> set N" using lenN assms(3) by simp
  then have "N ! j \<in> set (steps t)" using sub t by auto
  then have c4: "forwardNeuronStep (activationFunction s) l j z a (weights s ! l ! j) cur
         (biases s ! l ! j) \<in> set (steps t)"
    using st by simp
  have c5: "a = activations t ! (l + 1) ! j" unfolding a_def acts(3) ..
  have c6: "z = (P ! l) ! j" by (simp add: z_def)
  from acts(1) acts(4) c6 c5 c1 c2 c3 c4 show ?thesis
    unfolding cur_def by blast
qed

theorem forward_neuron_values_witness:
  "\<exists>out t. forward demo_network [1, 0] = Inr (out, t) \<and>
     (\<exists>zs z a.
       activations t ! 0 = [1, 0] \<and>
       preActivations t ! (0 + 1) = Some zs \<and> z = zs ! 1 \<and> a = activations t ! (0 + 1) ! 1 \<and>
       z = biases demo_network ! 0 ! 1 +
             (\<Sum>i<length (activations t ! 0). weights demo_network ! 0 ! 1 ! i * activations t ! 0 ! i) \<and>
       a = (if 0 = length (weights demo_network) - 1
            then 1 / (1 + exp (- max (- 500) (min 500 z)))
            else activate (activationFunction demo_network) z False) \<and>
       forwardNeuronStep (activationFunction demo_network) 0 1 z a (weights demo_network ! 0 ! 1)
         (activations t ! 0) (biases demo_network ! 0 ! 1) \<in> set (steps t))"
proof -
  from demo_forward_backward [of 0] obtain out t where
    f: "forward demo_network [1, 0] = Inr (out, t)" by blast
  have l: "0 < length (weights demo_network)" and j: "1 < length (weights demo_network ! 0)"
    by (simp_all add: demo_weights)
  from forward_neuron_values [OF f l j] f show ?thesis by blast
qed

lemma backward_fields:
  assumes "backward s target = Inr (r, s')"
  obtains out hsts usts where
    "activations s \<noteq> []" and "hd (last (activations s)) = out" and "last (activations s) \<noteq> []"
    and "backpropagate (activationFunction s) (layers s) (preActivations s) (weights s)
       (length (weights s) - 1)
       ((replicate (length (weights s)) [])
          [length (weights s) - 1 := [(out - target) * (out * (1 - out))]])
       = Inr (deltas s', hsts)"
    and "updateLayers (learningRate s) (deltas s') (activations s) (biases s) 0 (weights s)
       = Inr (weights s', weightGradients s', biasGradients s', biases s', usts)"
    and "steps s' = steps s @
              [lossStep out target (out - target)
                 (double_mul (double_mul 0.5 (out - target)) (out - target)),
               outputDeltaStep (length (layers s)) (out - target) (out * (1 - out))
                 ((out - target) * (out * (1 - out)))] @
              hsts @ usts @ [Complete (weights s') (weights s)]"
    and "output r = out" and "error r = out - target"
proof -
  from backward_Inr [OF assms] obtain out rest ds hsts ws wgs bgs bss usts where
    a: "activations s \<noteq> []" "last (activations s) = out # rest"
    and b: "backpropagate (activationFunction s) (layers s) (preActivations s) (weights s)
       (length (weights s) - 1)
       ((replicate (length (weights s)) [])
          [length (weights s) - 1 := [(out - target) * (out * (1 - out))]]) = Inr (ds, hsts)"
    and u: "updateLayers (learningRate s) ds (activations s) (biases s) 0 (weights s)
       = Inr (ws, wgs, bgs, bss, usts)"
    and r: "r = \<lparr>loss = double_mul (double_mul 0.5 (out - target)) (out - target), output = out,
                error = out - target\<rparr>"
    and s': "s' = s\<lparr>previousWeights := weights s, deltas := ds, weightGradients := wgs,
            biasGradients := bgs, weights := ws, biases := bss,
            steps := steps s @
              [lossStep out target (out - target)
                 (double_mul (double_mul 0.5 (out - target)) (out - target)),
               outputDeltaStep (length (layers s)) (out - target) (out * (1 - out))
                 ((out - target) * (out * (1 - out)))] @
              hsts @ usts @ [Complete ws (weights s)]\<rparr>"
    by blast
  show thesis
  proof (rule that [of out hsts usts])
    show "activations s \<noteq> []" by (rule a(1))
    show "hd (last (activations s)) = out" "last (activations s) \<noteq> []" using a(2) by simp_all
    show "backpropagate (activationFunction s) (layers s) (preActivations s) (weights s)
       (length (weights s) - 1)
       ((replicate (length (weights s)) [])
          [length (weights s) - 1 := [(out - target) * (out * (1 - out))]])
       = Inr (deltas s', hsts)" using b s' by simp
    show "updateLayers (learningRate s) (deltas s') (activations s) (biases s) 0 (weights s)
       = Inr (weights s', weightGradients s', biasGradients s', biases s', usts)"
      using u s' by simp
    show "steps s' = steps s @
              [lossStep out target (out - target)
                 (double_mul (double_mul 0.5 (out - target)) (out - target)),
               outputDeltaStep (length (layers s)) (out - target) (out * (1 - out))
                 ((out - target) * (out * (1 - out)))] @
              hsts @ usts @ [Complete (weights s') (weights s)]"
      using s' by simp
    show "output r = out" "error r = out - target" using r by simp_all
  qed
qed

text \<open>
  C1: in the update phase of \<^verbatim>\<open>backward(target)\<close>, for every transition \<open>l\<close>, destination
  neuron \<open>j\<close> and source neuron \<open>i\<close>, the weight gradient is
  \<open>deltas[l][j] \<times> activations[l][i]\<close>, with the activations the state holds from the
  preceding forward pass (\<^verbatim>\<open>backward\<close> leaves them as they are), the new weight is the old
  weight minus \<open>learningRate \<times>\<close> that gradient, as the \<^verbatim>\<open>weight_update\<close> step records, and
  every bias becomes its old value minus \<open>learningRate \<times> deltas[l][j]\<close>.
\<close>

theorem backward_updates:
  assumes "backward s target = Inr (r, s')"
    and "l < length (weights s)" and "j < length (weights s ! l)"
  shows "activations s' = activations s \<and>
     biasGradients s' ! l ! j = deltas s' ! l ! j \<and>
     biases s' ! l ! j = biases s ! l ! j - learningRate s * deltas s' ! l ! j \<and>
     (\<forall>i<length (weights s ! l ! j).
        weightGradients s' ! l ! j ! i = deltas s' ! l ! j * activations s ! l ! i \<and>
        weights s' ! l ! j ! i =
          weights s ! l ! j ! i - learningRate s * (deltas s' ! l ! j * activations s ! l ! i) \<and>
        weightUpdateStep l j i (weights s ! l ! j ! i) (weights s' ! l ! j ! i)
          (deltas s' ! l ! j * activations s ! l ! i)
          (- learningRate s * (deltas s' ! l ! j * activations s ! l ! i)) \<in> set (steps s'))"
proof -
  from backward_fields [OF assms(1)] obtain out hsts usts where
    u: "updateLayers (learningRate s) (deltas s') (activations s) (biases s) 0 (weights s)
       = Inr (weights s', weightGradients s', biasGradients s', biases s', usts)"
    and stp: "steps s' = steps s @
              [lossStep out target (out - target)
                 (double_mul (double_mul 0.5 (out - target)) (out - target)),
               outputDeltaStep (length (layers s)) (out - target) (out * (1 - out))
                 ((out - target) * (out * (1 - out)))] @
              hsts @ usts @ [Complete (weights s') (weights s)]"
    by blast
  have sub: "set usts \<subseteq> set (steps s')" unfolding stp by auto
  have acts: "activations s' = activations s" by (rule backward_keeps(7) [OF assms(1)])
  define ds ws wgs bgs bss where "ds = deltas s'" and "ws = weights s'"
    and "wgs = weightGradients s'" and "bgs = biasGradients s'" and "bss = biases s'"
  note f = ds_def ws_def wgs_def bgs_def bss_def
  note u = u [folded f]
  let ?lr = "learningRate s"
  from updateLayers_Inr [OF u] assms(2) obtain N where
    n: "updateNeurons ?lr (0 + l) (ds ! (0 + l)) (entry (activations s) (0 + l))
          (entry (biases s) (0 + l)) 0 (weights s ! l)
        = Inr (ws ! l, wgs ! l, bgs ! l, entry bss (0 + l), N)"
    and subN: "set N \<subseteq> set usts"
    by blast
  have n': "updateNeurons ?lr l (ds ! l) (entry (activations s) l) (entry (biases s) l) 0
          (weights s ! l) = Inr (ws ! l, wgs ! l, bgs ! l, entry bss l, N)"
    using n by simp
  note ni = updateNeurons_Inr [OF n']
  have ne: "weights s ! l \<noteq> []" using assms(3) by auto
  from ni ne obtain bs bs' where
    b: "entry (biases s) l = Some bs" "entry bss l = Some bs'" "0 + length (weights s ! l) \<le> length bs"
    and bv: "\<forall>m<length bs. bs' ! m =
          (if 0 \<le> m \<and> m < 0 + length (weights s ! l) then bs ! m - ?lr * ds ! l ! m else bs ! m)"
    by blast
  have bs: "bs = biases s ! l" "bs' = bss ! l"
    using b(1,2) by (auto simp: entry_def split: if_splits)
  have jb: "j < length bs" using b(3) assms(3) by simp
  have bias: "bss ! l ! j = biases s ! l ! j - ?lr * ds ! l ! j"
    using bv [rule_format, OF jb] assms(3) bs by simp
  from ni assms(3) obtain M where
    bg: "bgs ! l ! j = ds ! l ! (0 + j)"
    and w: "updateWeights ?lr l (0 + j) (ds ! l ! (0 + j)) (entry (activations s) l) 0
              (weights s ! l ! j) = Inr (ws ! l ! j, wgs ! l ! j, M)"
    and subM: "set M \<subseteq> set N"
    by blast
  have w': "updateWeights ?lr l j (ds ! l ! j) (entry (activations s) l) 0
              (weights s ! l ! j) = Inr (ws ! l ! j, wgs ! l ! j, M)"
    using w by simp
  note wi = updateWeights_Inr [OF w']
  have lenM: "length M = length (weights s ! l ! j)" using wi by simp
  have each: "wgs ! l ! j ! i = ds ! l ! j * activations s ! l ! i \<and>
        ws ! l ! j ! i = weights s ! l ! j ! i - ?lr * (ds ! l ! j * activations s ! l ! i) \<and>
        weightUpdateStep l j i (weights s ! l ! j ! i) (ws ! l ! j ! i)
          (ds ! l ! j * activations s ! l ! i)
          (- ?lr * (ds ! l ! j * activations s ! l ! i)) \<in> set (steps s')"
    if i: "i < length (weights s ! l ! j)" for i
  proof -
    from wi i obtain as where
      a: "entry (activations s) l = Some as"
      and g: "wgs ! l ! j ! i = ds ! l ! j * as ! (0 + i)"
      and v: "ws ! l ! j ! i = weights s ! l ! j ! i - ?lr * wgs ! l ! j ! i"
      and st: "M ! i = weightUpdateStep l j (0 + i) (weights s ! l ! j ! i) (ws ! l ! j ! i)
                 (wgs ! l ! j ! i) (- ?lr * wgs ! l ! j ! i)"
      by blast
    have as: "as = activations s ! l" using a by (auto simp: entry_def split: if_splits)
    have g': "wgs ! l ! j ! i = ds ! l ! j * activations s ! l ! i" using g as by simp
    have "M ! i \<in> set M" using lenM i by simp
    then have "M ! i \<in> set (steps s')" using subM subN sub by blast
    then show ?thesis using g' v st by simp
  qed
  have bg': "bgs ! l ! j = ds ! l ! j" using bg by simp
  show ?thesis
  proof (intro conjI allI impI)
    show "activations s' = activations s" by (rule acts)
    show "biasGradients s' ! l ! j = deltas s' ! l ! j" using bg' unfolding f .
    show "biases s' ! l ! j = biases s ! l ! j - learningRate s * deltas s' ! l ! j"
      using bias unfolding f .
  next
    fix i assume i: "i < length (weights s ! l ! j)"
    note e = each [OF i, unfolded f]
    show "weightGradients s' ! l ! j ! i = deltas s' ! l ! j * activations s ! l ! i"
      using e by (rule conjunct1)
    show "weights s' ! l ! j ! i =
          weights s ! l ! j ! i - learningRate s * (deltas s' ! l ! j * activations s ! l ! i)"
      using e by (elim conjE)
    show "weightUpdateStep l j i (weights s ! l ! j ! i) (weights s' ! l ! j ! i)
          (deltas s' ! l ! j * activations s ! l ! i)
          (- learningRate s * (deltas s' ! l ! j * activations s ! l ! i)) \<in> set (steps s')"
      using e by (elim conjE)
  qed
qed

theorem backward_updates_witness:
  "\<exists>out t r s'. forward demo_network [1, 0] = Inr (out, t) \<and> backward t 1 = Inr (r, s') \<and>
     activations s' = activations t \<and>
     biasGradients s' ! 1 ! 0 = deltas s' ! 1 ! 0 \<and>
     biases s' ! 1 ! 0 = biases t ! 1 ! 0 - learningRate t * deltas s' ! 1 ! 0 \<and>
     (\<forall>i<length (weights t ! 1 ! 0).
        weightGradients s' ! 1 ! 0 ! i = deltas s' ! 1 ! 0 * activations t ! 1 ! i \<and>
        weights s' ! 1 ! 0 ! i =
          weights t ! 1 ! 0 ! i - learningRate t * (deltas s' ! 1 ! 0 * activations t ! 1 ! i))"
proof -
  from demo_forward_backward [of 1] obtain out t r s' where
    f: "forward demo_network [1, 0] = Inr (out, t)" and b: "backward t 1 = Inr (r, s')"
    by blast
  have w: "weights t = weights demo_network" by (rule forward_keeps(1) [OF f])
  have l: "1 < length (weights t)" and j: "0 < length (weights t ! 1)"
    unfolding w demo_weights by simp_all
  from backward_updates [OF b l j] f b show ?thesis by blast
qed

lemma activate_derivative:
  assumes "af \<in> {''sigmoid'', ''relu'', ''tanh''}"
  shows "activate af z True = activation_derivative af z"
  using assms by (auto simp: activate_def activation_derivative_def Let_def power2_eq_square)

text \<open>
  The derivative forms are derivatives of what \<^verbatim>\<open>activate\<close> computes: everywhere for the
  hyperbolic tangent, away from 0 for ReLU, and inside the clamp of \<^verbatim>\<open>sigmoid\<close> for the
  sigmoid (at and beyond \<open>\<plusminus>500\<close> the clamped function is constant on one side, and the form
  \<open>\<sigma>(z)(1 - \<sigma>(z))\<close> is not its slope there).
\<close>

lemma sigmoid_inside: "\<bar>z\<bar> < 500 \<Longrightarrow> sigmoid z = 1 / (1 + exp (- z))"
  by (auto simp: sigmoid_def max_def min_def)

lemma DERIV_logistic:
  "((\<lambda>x. 1 / (1 + exp (- x))) has_real_derivative
      (1 / (1 + exp (- z))) * (1 - 1 / (1 + exp (- z)))) (at z)"
proof -
  have pos: "1 + exp (- z) \<noteq> 0" using exp_gt_zero [of "- z"] by linarith
  have "((\<lambda>x. 1 / (1 + exp (- x))) has_real_derivative
          (0 * (1 + exp (- z)) - 1 * (exp (- z) * - 1)) / ((1 + exp (- z)) * (1 + exp (- z)))) (at z)"
    by (rule derivative_eq_intros refl pos | simp add: pos)+
  moreover have "(0 * (1 + exp (- z)) - 1 * (exp (- z) * - 1)) / ((1 + exp (- z)) * (1 + exp (- z)))
        = (1 / (1 + exp (- z))) * (1 - 1 / (1 + exp (- z)))"
    using pos by (simp add: field_simps)
  ultimately show ?thesis by simp
qed

lemma activation_derivative_sigmoid:
  assumes "\<bar>z\<bar> < 500"
  shows "(sigmoid has_real_derivative activation_derivative ''sigmoid'' z) (at z)"
proof -
  have ev: "\<forall>\<^sub>F x in nhds z. sigmoid x = 1 / (1 + exp (- x))"
  proof -
    have "open {x::real. \<bar>x\<bar> < 500}" by (rule open_Collect_less) (intro continuous_intros)+
    moreover have "z \<in> {x::real. \<bar>x\<bar> < 500}" using assms by simp
    ultimately have "\<forall>\<^sub>F x in nhds z. x \<in> {x::real. \<bar>x\<bar> < 500}" by (rule eventually_nhds_in_open)
    then show ?thesis by (rule eventually_mono) (simp add: sigmoid_inside)
  qed
  have "((\<lambda>x. 1 / (1 + exp (- x))) has_real_derivative activation_derivative ''sigmoid'' z) (at z)"
    using DERIV_logistic [of z] assms by (simp add: activation_derivative_def sigmoid_inside)
  then show ?thesis
    using ev sigmoid_inside [OF assms] by (subst DERIV_cong_ev [OF refl _ refl]) auto
qed

lemma activation_derivative_tanh:
  "(tanh has_real_derivative activation_derivative ''tanh'' z) (at z)"
proof -
  have "(tanh has_real_derivative 1 - (tanh z)\<^sup>2) (at z)"
    by (rule derivative_eq_intros refl | simp)+
  then show ?thesis by (simp add: activation_derivative_def)
qed

lemma activation_derivative_relu:
  assumes "z \<noteq> 0"
  shows "((\<lambda>x. max 0 x) has_real_derivative activation_derivative ''relu'' z) (at z)"
proof (cases "0 < z")
  case True
  have "\<forall>\<^sub>F x in nhds z. 0 < x"
    using True by (intro order_tendstoD(1) [of "\<lambda>x. x"]) (simp_all add: filterlim_ident)
  then have ev: "\<forall>\<^sub>F x in nhds z. max 0 x = x" by (rule eventually_mono) simp
  have "((\<lambda>x. x) has_real_derivative 1) (at z)" by simp
  then have "((\<lambda>x. max 0 x) has_real_derivative 1) (at z)"
    using ev True by (subst DERIV_cong_ev [OF refl _ refl]) auto
  then show ?thesis using True by (simp add: activation_derivative_def)
next
  case False
  then have neg: "z < 0" using assms by simp
  have "\<forall>\<^sub>F x in nhds z. x < 0"
    using neg by (intro order_tendstoD(2) [of "\<lambda>x. x"]) (simp_all add: filterlim_ident)
  then have ev: "\<forall>\<^sub>F x in nhds z. max 0 x = 0" by (rule eventually_mono) simp
  have "((\<lambda>x. 0::real) has_real_derivative 0) (at z)" by simp
  then have "((\<lambda>x. max 0 x) has_real_derivative 0) (at z)"
    using ev neg by (subst DERIV_cong_ev [OF refl _ refl]) auto
  then show ?thesis using neg by (simp add: activation_derivative_def)
qed

lemma activation_derivative_is_derivative:
  assumes "af \<in> {''sigmoid'', ''relu'', ''tanh''}"
    and "af = ''sigmoid'' \<longrightarrow> \<bar>z\<bar> < 500"
    and "af = ''relu'' \<longrightarrow> z \<noteq> 0"
  shows "((\<lambda>x. activate af x False) has_real_derivative activate af z True) (at z)"
proof -
  have s: "(\<lambda>x. activate ''sigmoid'' x False) = sigmoid"
    and r: "(\<lambda>x. activate ''relu'' x False) = (\<lambda>x. max 0 x)"
    and t: "(\<lambda>x. activate ''tanh'' x False) = tanh"
    by (simp_all add: activate_def fun_eq_iff)
  from assms(1) consider "af = ''sigmoid''" | "af = ''relu''" | "af = ''tanh''" by auto
  then show ?thesis
  proof cases
    case 1
    then show ?thesis
      using activation_derivative_sigmoid [of z] assms(2) activate_derivative [OF assms(1), of z]
      by (simp add: s)
  next
    case 2
    then show ?thesis
      using activation_derivative_relu [of z] assms(3) activate_derivative [OF assms(1), of z]
      by (simp add: r)
  next
    case 3
    then show ?thesis
      using activation_derivative_tanh [of z] activate_derivative [OF assms(1), of z]
      by (simp add: t)
  qed
qed

lemma concat_map_upt_Suc:
  "concat (map f [0..<Suc n]) = f 0 @ concat (map (\<lambda>k. f (Suc k)) [0..<n])"
proof -
  have "[0..<Suc n] = 0 # map Suc [0..<n]"
    by (simp add: upt_conv_Cons map_Suc_upt del: upt_Suc)
  then show ?thesis by (simp add: comp_def del: upt_Suc)
qed

lemma step_facts [simp]:
  "step_type (forwardNeuronStep af l j z a wj cur b) = ''forward_neuron''"
  "highlightNeurons (forwardNeuronStep af l j z a wj cur b) = [(int l + 1, int j)]"
  "step_type (layerCompleteStep l na acts) = ''forward_layer_complete''"
  "step_type (inputStep input) = ''input''"
  "step_type (lossStep out target err lss) = ''loss''"
  "step_type (outputDeltaStep nl err sd od) = ''backward_delta''"
  "highlightNeurons (outputDeltaStep nl err sd od) = [(int nl - 1, 0)]"
  "step_type (hiddenDeltaStep af l j delta n) = ''backward_delta''"
  "highlightNeurons (hiddenDeltaStep af l j delta n) = [(int l + 1, int j)]"
  "step_type (weightUpdateStep l j i ow nw g wu) = ''weight_update''"
  "highlightConnections (weightUpdateStep l j i ow nw g wu) = [(int l, int i, int l + 1, int j)]"
  by (simp_all add: forwardNeuronStep_def layerCompleteStep_def inputStep_def lossStep_def
      outputDeltaStep_def hiddenDeltaStep_def weightUpdateStep_def)

lemma hiddenDeltas_steps:
  assumes "hiddenDeltas m af l nld nlw zs j = Inr (ds, sts)"
  shows "map highlightNeurons sts = map (\<lambda>k. [(int l + 1, int (j + k))]) [0..<m]"
    and "\<forall>st\<in>set sts. step_type st = ''backward_delta''"
proof -
  note h = hiddenDeltas_Inr [OF assms]
  have len: "length sts = m" using h by simp
  have nth: "sts ! k = hiddenDeltaStep af l (j + k) (ds ! k) (length nld)" if "k < m" for k
    using h that by blast
  show "map highlightNeurons sts = map (\<lambda>k. [(int l + 1, int (j + k))]) [0..<m]"
    by (rule nth_equalityI) (simp_all add: len nth)
  show "\<forall>st\<in>set sts. step_type st = ''backward_delta''"
    using len nth by (auto simp: in_set_conv_nth)
qed

lemma backpropagate_steps:
  "backpropagate af ls pres ws k ds = Inr (ds', sts) \<Longrightarrow>
   map highlightNeurons sts =
     concat (map (\<lambda>l. map (\<lambda>j. [(int l + 1, int j)]) [0..<nat (ls ! (l + 1))]) (rev [0..<k])) \<and>
   (\<forall>st\<in>set sts. step_type st = ''backward_delta'')"
proof (induction k arbitrary: ds ds' sts)
  case 0
  then show ?case by simp
next
  case (Suc l)
  from Suc.prems obtain ld sts0 sts1 where
    h: "hiddenDeltas (nat (ls ! (l + 1))) af l (ds ! (l + 1)) (ws ! (l + 1)) (pres ! (l + 1)) 0
              = Inr (ld, sts0)"
    and r: "backpropagate af ls pres ws l (ds[l := ld]) = Inr (ds', sts1)"
    and sts: "sts = sts0 @ sts1"
    by (auto split: if_splits sum.splits prod.splits)
  from hiddenDeltas_steps [OF h] Suc.IH [OF r] sts show ?case by auto
qed

lemma updateWeights_steps:
  assumes "updateWeights lr l j delta al i row = Inr (ws, gs, sts)"
  shows "map highlightConnections sts
           = map (\<lambda>k. [(int l, int (i + k), int l + 1, int j)]) [0..<length row]"
    and "\<forall>st\<in>set sts. step_type st = ''weight_update''"
proof -
  note h = updateWeights_Inr [OF assms]
  have len: "length sts = length row" using h by simp
  have nth: "sts ! k = weightUpdateStep l j (i + k) (row ! k) (ws ! k) (gs ! k) (- lr * gs ! k)"
    if "k < length row" for k
    using h that by blast
  show "map highlightConnections sts
           = map (\<lambda>k. [(int l, int (i + k), int l + 1, int j)]) [0..<length row]"
    by (rule nth_equalityI) (simp_all add: len nth)
  show "\<forall>st\<in>set sts. step_type st = ''weight_update''"
    using len nth by (auto simp: in_set_conv_nth)
qed

lemma updateNeurons_steps:
  "updateNeurons lr l dl al bl j rows = Inr (rows', gs, bgs, bl', sts) \<Longrightarrow>
   map highlightConnections sts =
     concat (map (\<lambda>k. map (\<lambda>i. [(int l, int i, int l + 1, int (j + k))]) [0..<length (rows ! k)])
               [0..<length rows]) \<and>
   (\<forall>st\<in>set sts. step_type st = ''weight_update'')"
proof (induction rows arbitrary: j bl rows' gs bgs bl' sts)
  case Nil
  then show ?case by simp
next
  case (Cons row rest)
  from Cons.prems obtain row' ng sts0 bs rs gs' bgs' sts1 where
    u: "updateWeights lr l j (dl ! j) al 0 row = Inr (row', ng, sts0)"
    and r: "updateNeurons lr l dl al (Some (bs[j := bs ! j - lr * dl ! j])) (j + 1) rest
              = Inr (rs, gs', bgs', bl', sts1)"
    and sts: "sts = sts0 @ sts1"
    by (auto simp: Let_def split: if_splits sum.splits prod.splits option.splits)
  note a = updateWeights_steps [OF u] and b = Cons.IH [OF r]
  let ?F = "\<lambda>k. map (\<lambda>i. [(int l, int i, int l + 1, int (j + k))])
                         [0..<length ((row # rest) ! k)]"
  let ?G = "\<lambda>k. map (\<lambda>i. [(int l, int i, int l + 1, int (j + 1 + k))]) [0..<length (rest ! k)]"
  have F0: "?F 0 = map (\<lambda>i. [(int l, int (0 + i), int l + 1, int j)]) [0..<length row]"
    by simp
  have FS: "(\<lambda>k. ?F (Suc k)) = ?G" by (rule ext) simp
  have "map highlightConnections sts = ?F 0 @ concat (map ?G [0..<length rest])"
    unfolding F0 using a(1) b sts by simp
  also have "\<dots> = ?F 0 @ concat (map (\<lambda>k. ?F (Suc k)) [0..<length rest])"
    unfolding FS ..
  also have "\<dots> = concat (map ?F [0..<Suc (length rest)])"
    by (rule concat_map_upt_Suc [symmetric])
  finally have "map highlightConnections sts = concat (map ?F [0..<length (row # rest)])"
    by simp
  moreover have "\<forall>st\<in>set sts. step_type st = ''weight_update''"
    using a(2) b sts by auto
  ultimately show ?case by blast
qed

lemma updateLayers_steps:
  "updateLayers lr ds acts bss l lws = Inr (ws, wgs, bgs, bss', sts) \<Longrightarrow>
   map highlightConnections sts =
     concat (map (\<lambda>m. concat (map (\<lambda>k. map (\<lambda>i. [(int (l + m), int i, int (l + m) + 1, int k)])
                                          [0..<length (lws ! m ! k)])
                                 [0..<length (lws ! m)]))
               [0..<length lws]) \<and>
   (\<forall>st\<in>set sts. step_type st = ''weight_update'')"
proof (induction lws arbitrary: l bss ws wgs bgs bss' sts)
  case Nil
  then show ?case by simp
next
  case (Cons lw rest)
  from Cons.prems obtain rows lg lbg bl' sts0 ws' wgs' bgs' sts1 where
    u: "updateNeurons lr l (ds ! l) (entry acts l) (entry bss l) 0 lw
              = Inr (rows, lg, lbg, bl', sts0)"
    and r: "updateLayers lr ds acts (case bl' of None \<Rightarrow> bss | Some bs \<Rightarrow> bss[l := bs]) (l + 1) rest
              = Inr (ws', wgs', bgs', bss', sts1)"
    and sts: "sts = sts0 @ sts1"
    by (auto split: if_splits sum.splits prod.splits)
  note a = updateNeurons_steps [OF u] and b = Cons.IH [OF r]
  let ?F = "\<lambda>m. concat (map (\<lambda>k. map (\<lambda>i. [(int (l + m), int i, int (l + m) + 1, int k)])
                                          [0..<length ((lw # rest) ! m ! k)])
                                 [0..<length ((lw # rest) ! m)])"
  let ?G = "\<lambda>m. concat (map (\<lambda>k. map (\<lambda>i. [(int (l + 1 + m), int i, int (l + 1 + m) + 1, int k)])
                                          [0..<length (rest ! m ! k)])
                                 [0..<length (rest ! m)])"
  have F0: "?F 0 = concat (map (\<lambda>k. map (\<lambda>i. [(int l, int i, int l + 1, int (0 + k))])
                                     [0..<length (lw ! k)]) [0..<length lw])"
    by simp
  have FS: "(\<lambda>m. ?F (Suc m)) = ?G" by (rule ext) simp
  have "map highlightConnections sts = ?F 0 @ concat (map ?G [0..<length rest])"
    unfolding F0 using a b sts by simp
  also have "\<dots> = ?F 0 @ concat (map (\<lambda>m. ?F (Suc m)) [0..<length rest])"
    unfolding FS ..
  also have "\<dots> = concat (map ?F [0..<Suc (length rest)])"
    by (rule concat_map_upt_Suc [symmetric])
  finally have "map highlightConnections sts = concat (map ?F [0..<length (lw # rest)])"
    by simp
  moreover have "\<forall>st\<in>set sts. step_type st = ''weight_update''"
    using a b sts by auto
  ultimately show ?case by blast
qed

text \<open>
  C5: in \<^verbatim>\<open>backward(target)\<close>, with one of the three activation functions configured, the
  delta of the output layer is \<open>error \<times> output \<times> (1 - output)\<close> with
  \<open>error = output - target\<close>, and the delta of neuron \<open>j\<close> of a hidden layer \<open>l + 1\<close> is
  \<open>(\<Sum>\<^sub>k \<delta>_next[k] \<times> weight_next[k][j]) \<times> f'(z\<^sub>j)\<close> with \<open>f'\<close> the derivative form of the
  configured function. The weights in the sum are those before the call; the steps come in
  the order loss, output delta, the hidden deltas from the last hidden layer back to the
  first, then the weight updates.
\<close>

theorem backward_deltas:
  assumes "backward s target = Inr (r, s')"
    and "activationFunction s \<in> {''sigmoid'', ''relu'', ''tanh''}"
  shows "error r = output r - target \<and>
     (weights s \<noteq> [] \<longrightarrow>
        deltas s' ! (length (weights s) - 1) = [error r * output r * (1 - output r)]) \<and>
     (\<forall>l j. l + 1 < length (weights s) \<and> j < nat (layers s ! (l + 1)) \<longrightarrow>
        (\<exists>zs. preActivations s ! (l + 1) = Some zs \<and>
           deltas s' ! l ! j =
             (\<Sum>k<length (deltas s' ! (l + 1)).
                 deltas s' ! (l + 1) ! k * weights s ! (l + 1) ! k ! j) *
             activation_derivative (activationFunction s) (zs ! j))) \<and>
     (\<exists>lst dst hsts usts.
        steps s' = steps s @ [lst, dst] @ hsts @ usts @ [Complete (weights s') (weights s)] \<and>
        step_type lst = ''loss'' \<and> step_type dst = ''backward_delta'' \<and>
        highlightNeurons dst = [(int (length (layers s)) - 1, 0)] \<and>
        map highlightNeurons hsts =
          concat (map (\<lambda>l. map (\<lambda>j. [(int l + 1, int j)]) [0..<nat (layers s ! (l + 1))])
                    (rev [0..<length (weights s) - 1])) \<and>
        (\<forall>st\<in>set hsts. step_type st = ''backward_delta'') \<and>
        (\<forall>st\<in>set usts. step_type st = ''weight_update''))"
proof -
  let ?n = "length (weights s)"
  from backward_fields [OF assms(1)] obtain out hsts usts where
    b: "backpropagate (activationFunction s) (layers s) (preActivations s) (weights s)
       (?n - 1) ((replicate ?n [])[?n - 1 := [(out - target) * (out * (1 - out))]])
       = Inr (deltas s', hsts)"
    and u: "updateLayers (learningRate s) (deltas s') (activations s) (biases s) 0 (weights s)
       = Inr (weights s', weightGradients s', biasGradients s', biases s', usts)"
    and stp: "steps s' = steps s @
              [lossStep out target (out - target)
                 (double_mul (double_mul 0.5 (out - target)) (out - target)),
               outputDeltaStep (length (layers s)) (out - target) (out * (1 - out))
                 ((out - target) * (out * (1 - out)))] @
              hsts @ usts @ [Complete (weights s') (weights s)]"
    and o: "output r = out" and e: "error r = out - target"
    by blast
  note bi = backpropagate_Inr [OF b]
  have c1: "error r = output r - target" using o e by simp
  have c2: "deltas s' ! (?n - 1) = [error r * output r * (1 - output r)]" if "weights s \<noteq> []"
  proof -
    have "deltas s' ! (?n - 1)
          = ((replicate ?n [])[?n - 1 := [(out - target) * (out * (1 - out))]]) ! (?n - 1)"
      using bi by simp
    also have "\<dots> = [(out - target) * (out * (1 - out))]" using that by simp
    finally show ?thesis using o e by (simp add: mult.assoc)
  qed
  have c3: "\<exists>zs. preActivations s ! (l + 1) = Some zs \<and>
           deltas s' ! l ! j =
             (\<Sum>k<length (deltas s' ! (l + 1)).
                 deltas s' ! (l + 1) ! k * weights s ! (l + 1) ! k ! j) *
             activation_derivative (activationFunction s) (zs ! j)"
    if l: "l + 1 < ?n" and j: "j < nat (layers s ! (l + 1))" for l j
  proof -
    have "l < ?n - 1" using l by simp
    with bi obtain N where
      h: "hiddenDeltas (nat (layers s ! (l + 1))) (activationFunction s) l (deltas s' ! (l + 1))
            (weights s ! (l + 1)) (preActivations s ! (l + 1)) 0 = Inr (deltas s' ! l, N)"
      by blast
    from hiddenDeltas_Inr [OF h] j obtain zl where
      "preActivations s ! (l + 1) = Some zl"
      "deltas s' ! l ! j =
         (\<Sum>q<length (deltas s' ! (l + 1)). deltas s' ! (l + 1) ! q * weights s ! (l + 1) ! q ! (0 + j))
         * activate (activationFunction s) (zl ! (0 + j)) True"
      by blast
    then show ?thesis using activate_derivative [OF assms(2)] by simp
  qed
  note hs = backpropagate_steps [OF b] and us = updateLayers_steps [OF u]
  have c4: "\<exists>lst dst hsts usts.
        steps s' = steps s @ [lst, dst] @ hsts @ usts @ [Complete (weights s') (weights s)] \<and>
        step_type lst = ''loss'' \<and> step_type dst = ''backward_delta'' \<and>
        highlightNeurons dst = [(int (length (layers s)) - 1, 0)] \<and>
        map highlightNeurons hsts =
          concat (map (\<lambda>l. map (\<lambda>j. [(int l + 1, int j)]) [0..<nat (layers s ! (l + 1))])
                    (rev [0..<?n - 1])) \<and>
        (\<forall>st\<in>set hsts. step_type st = ''backward_delta'') \<and>
        (\<forall>st\<in>set usts. step_type st = ''weight_update'')"
    apply (rule exI [of _ "lossStep out target (out - target)
                             (double_mul (double_mul 0.5 (out - target)) (out - target))"])
    apply (rule exI [of _ "outputDeltaStep (length (layers s)) (out - target) (out * (1 - out))
                 ((out - target) * (out * (1 - out)))"])
    apply (rule exI [of _ hsts], rule exI [of _ usts])
    using stp hs us apply simp
    done
  from c1 c2 c3 c4 show ?thesis by blast
qed

theorem backward_deltas_witness:
  "\<exists>out t r s'. forward demo_network [1, 0] = Inr (out, t) \<and> backward t 1 = Inr (r, s') \<and>
     error r = output r - 1 \<and>
     deltas s' ! 1 = [error r * output r * (1 - output r)] \<and>
     (\<exists>zs. preActivations t ! 1 = Some zs \<and>
        deltas s' ! 0 ! 1 =
          (\<Sum>k<length (deltas s' ! 1). deltas s' ! 1 ! k * weights t ! 1 ! k ! 1) *
          activation_derivative ''relu'' (zs ! 1))"
proof -
  from demo_forward_backward [of 1] obtain out t r s' where
    f: "forward demo_network [1, 0] = Inr (out, t)" and b: "backward t 1 = Inr (r, s')"
    by blast
  note k = forward_keeps [OF f]
  have w: "weights t = weights demo_network" and a: "activationFunction t = ''relu''"
    and ls: "layers t = [2, 2, 1]"
    using k by (simp_all add: demo_activationFunction demo_layers)
  have af: "activationFunction t \<in> {''sigmoid'', ''relu'', ''tanh''}" using a by simp
  note th = backward_deltas [OF b af]
  have ne: "weights t \<noteq> []" and n: "length (weights t) - 1 = 1"
    using w demo_weights(1) by auto
  have l: "0 + 1 < length (weights t) \<and> 1 < nat (layers t ! (0 + 1))"
    using w demo_weights(1) ls by simp
  from th have c1: "error r = output r - 1" by blast
  from th ne n have c2: "deltas s' ! 1 = [error r * output r * (1 - output r)]" by auto
  from th have "\<forall>l j. l + 1 < length (weights t) \<and> j < nat (layers t ! (l + 1)) \<longrightarrow>
        (\<exists>zs. preActivations t ! (l + 1) = Some zs \<and>
           deltas s' ! l ! j =
             (\<Sum>k<length (deltas s' ! (l + 1)).
                 deltas s' ! (l + 1) ! k * weights t ! (l + 1) ! k ! j) *
             activation_derivative (activationFunction t) (zs ! j))" by blast
  from this [rule_format, OF l] have c3: "\<exists>zs. preActivations t ! 1 = Some zs \<and>
        deltas s' ! 0 ! 1 =
          (\<Sum>k<length (deltas s' ! 1). deltas s' ! 1 ! k * weights t ! 1 ! k ! 1) *
          activation_derivative ''relu'' (zs ! 1)"
    using a by simp
  from f b c1 c2 c3 show ?thesis by blast
qed

lemma steps_of_type_append [simp]:
  "steps_of_type t (xs @ ys) = steps_of_type t xs @ steps_of_type t ys"
  by (simp add: steps_of_type_def)

lemma steps_of_type_Cons:
  "steps_of_type t (x # xs) = (if step_type x = t then x # steps_of_type t xs else steps_of_type t xs)"
  by (simp add: steps_of_type_def)

lemma steps_of_type_Nil [simp]: "steps_of_type t [] = []"
  by (simp add: steps_of_type_def)

lemma steps_of_type_all:
  "\<forall>st\<in>set sts. step_type st = t \<Longrightarrow> steps_of_type t sts = sts"
  by (simp add: steps_of_type_def)

lemma steps_of_type_none:
  "\<forall>st\<in>set sts. step_type st = t' \<Longrightarrow> t' \<noteq> t \<Longrightarrow> steps_of_type t sts = []"
  by (auto simp: steps_of_type_def filter_empty_conv)

lemma forwardNeurons_steps:
  assumes "forwardNeurons af io l bs cur j rows = Inr (as, zs, sts)"
  shows "map highlightNeurons sts = map (\<lambda>k. [(int l + 1, int (j + k))]) [0..<length rows]"
    and "\<forall>st\<in>set sts. step_type st = ''forward_neuron''"
proof -
  note h = forwardNeurons_Inr [OF assms]
  have len: "length sts = length rows" using h by simp
  have nth: "sts ! k = forwardNeuronStep af l (j + k) (zs ! k) (as ! k) (rows ! k) cur (bs ! (j + k))"
    if "k < length rows" for k
    using h that by blast
  show "map highlightNeurons sts = map (\<lambda>k. [(int l + 1, int (j + k))]) [0..<length rows]"
    by (rule nth_equalityI) (simp_all add: len nth)
  show "\<forall>st\<in>set sts. step_type st = ''forward_neuron''"
    using len nth by (auto simp: in_set_conv_nth)
qed

lemma forwardLayers_steps:
  "forwardLayers af bss l lws cur (acts, pres, sts) = Inr (cur', acts', pres', sts') \<Longrightarrow>
   \<exists>S. sts' = sts @ S \<and>
     map highlightNeurons (steps_of_type ''forward_neuron'' S) =
       concat (map (\<lambda>k. map (\<lambda>j. [(int (l + k) + 1, int j)]) [0..<length (lws ! k)])
                 [0..<length lws]) \<and>
     steps_of_type ''backward_delta'' S = [] \<and> steps_of_type ''weight_update'' S = []"
proof (induction lws arbitrary: l cur acts pres sts)
  case Nil
  then show ?case by simp
next
  case (Cons lw rest)
  from Cons.prems obtain na lp nsts where
    n: "forwardNeurons af (rest = []) l (if l < length bss then bss ! l else []) cur 0 lw
              = Inr (na, lp, nsts)"
    and r: "forwardLayers af bss (l + 1) rest na
              (acts @ [na], pres @ [Some lp],
               sts @ nsts @ [layerCompleteStep l na (acts @ [na])])
            = Inr (cur', acts', pres', sts')"
    by (auto simp: Let_def split: if_splits sum.splits prod.splits)
  from Cons.IH [OF r] obtain S where
    S: "sts' = (sts @ nsts @ [layerCompleteStep l na (acts @ [na])]) @ S"
    and Sf: "map highlightNeurons (steps_of_type ''forward_neuron'' S) =
       concat (map (\<lambda>k. map (\<lambda>j. [(int (l + 1 + k) + 1, int j)]) [0..<length (rest ! k)])
                 [0..<length rest])"
    and So: "steps_of_type ''backward_delta'' S = []" "steps_of_type ''weight_update'' S = []"
    by blast
  note ns = forwardNeurons_steps [OF n]
  let ?S = "nsts @ [layerCompleteStep l na (acts @ [na])] @ S"
  let ?F = "\<lambda>k. map (\<lambda>j. [(int (l + k) + 1, int j)]) [0..<length ((lw # rest) ! k)]"
  let ?G = "\<lambda>k. map (\<lambda>j. [(int (l + 1 + k) + 1, int j)]) [0..<length (rest ! k)]"
  have F0: "?F 0 = map (\<lambda>k. [(int l + 1, int (0 + k))]) [0..<length lw]" by simp
  have FS: "(\<lambda>k. ?F (Suc k)) = ?G" by (rule ext) simp
  have fn: "steps_of_type ''forward_neuron'' ?S = nsts @ steps_of_type ''forward_neuron'' S"
    using steps_of_type_all [OF ns(2)] by (simp add: steps_of_type_Cons)
  have "map highlightNeurons (steps_of_type ''forward_neuron'' ?S)
        = ?F 0 @ concat (map ?G [0..<length rest])"
    unfolding fn F0 using ns(1) Sf by simp
  also have "\<dots> = ?F 0 @ concat (map (\<lambda>k. ?F (Suc k)) [0..<length rest])"
    unfolding FS ..
  also have "\<dots> = concat (map ?F [0..<Suc (length rest)])"
    by (rule concat_map_upt_Suc [symmetric])
  finally have a: "map highlightNeurons (steps_of_type ''forward_neuron'' ?S)
        = concat (map ?F [0..<length (lw # rest)])"
    by simp
  have b: "steps_of_type ''backward_delta'' ?S = []" "steps_of_type ''weight_update'' ?S = []"
    using So steps_of_type_none [OF ns(2)] by (simp_all add: steps_of_type_Cons)
  have "sts' = sts @ ?S" using S by simp
  with a b show ?case by blast
qed

lemma forward_steps:
  assumes "forward s input = Inr (out, t)"
  shows "map highlightNeurons (steps_of_type ''forward_neuron'' (steps t)) =
       concat (map (\<lambda>k. map (\<lambda>j. [(int k + 1, int j)]) [0..<length (weights s ! k)])
                 [0..<length (weights s)])"
    and "steps_of_type ''backward_delta'' (steps t) = []"
    and "steps_of_type ''weight_update'' (steps t) = []"
proof -
  from assms obtain cur acts pres sts where
    f: "forwardLayers (activationFunction s) (biases s) 0 (weights s) input
          ([input], [None], [inputStep input]) = Inr (cur, acts, pres, sts)"
    and t: "steps t = sts"
    by (auto simp: forward_def split: sum.splits prod.splits list.splits)
  from forwardLayers_steps [OF f] obtain S where
    S: "sts = [inputStep input] @ S"
    and Sf: "map highlightNeurons (steps_of_type ''forward_neuron'' S) =
       concat (map (\<lambda>k. map (\<lambda>j. [(int (0 + k) + 1, int j)]) [0..<length (weights s ! k)])
                 [0..<length (weights s)])"
    and So: "steps_of_type ''backward_delta'' S = []" "steps_of_type ''weight_update'' S = []"
    by blast
  show "map highlightNeurons (steps_of_type ''forward_neuron'' (steps t)) =
       concat (map (\<lambda>k. map (\<lambda>j. [(int k + 1, int j)]) [0..<length (weights s ! k)])
                 [0..<length (weights s)])"
    using t S Sf by (simp add: steps_of_type_Cons)
  show "steps_of_type ''backward_delta'' (steps t) = []"
    "steps_of_type ''weight_update'' (steps t) = []"
    using t S So by (simp_all add: steps_of_type_Cons)
qed

lemma backward_steps:
  assumes "backward s target = Inr (r, s')"
  shows "steps_of_type ''forward_neuron'' (steps s') = steps_of_type ''forward_neuron'' (steps s)"
    and "map highlightNeurons (steps_of_type ''backward_delta'' (steps s')) =
       map highlightNeurons (steps_of_type ''backward_delta'' (steps s)) @
       [(int (length (layers s)) - 1, 0)] #
       concat (map (\<lambda>l. map (\<lambda>j. [(int l + 1, int j)]) [0..<nat (layers s ! (l + 1))])
                 (rev [0..<length (weights s) - 1]))"
    and "map highlightConnections (steps_of_type ''weight_update'' (steps s')) =
       map highlightConnections (steps_of_type ''weight_update'' (steps s)) @
       concat (map (\<lambda>m. concat (map (\<lambda>k. map (\<lambda>i. [(int m, int i, int m + 1, int k)])
                                          [0..<length (weights s ! m ! k)])
                                 [0..<length (weights s ! m)]))
               [0..<length (weights s)])"
proof -
  let ?n = "length (weights s)"
  from backward_fields [OF assms(1)] obtain out hsts usts where
    b: "backpropagate (activationFunction s) (layers s) (preActivations s) (weights s)
       (?n - 1) ((replicate ?n [])[?n - 1 := [(out - target) * (out * (1 - out))]])
       = Inr (deltas s', hsts)"
    and u: "updateLayers (learningRate s) (deltas s') (activations s) (biases s) 0 (weights s)
       = Inr (weights s', weightGradients s', biasGradients s', biases s', usts)"
    and stp: "steps s' = steps s @
              [lossStep out target (out - target)
                 (double_mul (double_mul 0.5 (out - target)) (out - target)),
               outputDeltaStep (length (layers s)) (out - target) (out * (1 - out))
                 ((out - target) * (out * (1 - out)))] @
              hsts @ usts @ [Complete (weights s') (weights s)]"
    by blast
  note hs = backpropagate_steps [OF b] and us = updateLayers_steps [OF u]
  have h1: "steps_of_type ''backward_delta'' hsts = hsts"
    "steps_of_type ''forward_neuron'' hsts = []" "steps_of_type ''weight_update'' hsts = []"
    using hs steps_of_type_all [of hsts] steps_of_type_none [of hsts "''backward_delta''"]
    by simp_all
  have u1: "steps_of_type ''weight_update'' usts = usts"
    "steps_of_type ''forward_neuron'' usts = []" "steps_of_type ''backward_delta'' usts = []"
    using us steps_of_type_all [of usts] steps_of_type_none [of usts "''weight_update''"]
    by simp_all
  show "steps_of_type ''forward_neuron'' (steps s') = steps_of_type ''forward_neuron'' (steps s)"
    unfolding stp by (simp add: h1 u1 steps_of_type_Cons)
  show "map highlightNeurons (steps_of_type ''backward_delta'' (steps s')) =
       map highlightNeurons (steps_of_type ''backward_delta'' (steps s)) @
       [(int (length (layers s)) - 1, 0)] #
       concat (map (\<lambda>l. map (\<lambda>j. [(int l + 1, int j)]) [0..<nat (layers s ! (l + 1))])
                 (rev [0..<?n - 1]))"
    unfolding stp using hs by (simp add: h1 u1 steps_of_type_Cons)
  show "map highlightConnections (steps_of_type ''weight_update'' (steps s')) =
       map highlightConnections (steps_of_type ''weight_update'' (steps s)) @
       concat (map (\<lambda>m. concat (map (\<lambda>k. map (\<lambda>i. [(int m, int i, int m + 1, int k)])
                                          [0..<length (weights s ! m ! k)])
                                 [0..<length (weights s ! m)]))
               [0..<?n])"
    unfolding stp using us by (simp add: h1 u1 steps_of_type_Cons)
qed

lemma distinct_indexed:
  "distinct xs \<Longrightarrow> inj_on g (set xs) \<Longrightarrow>
   distinct (concat (map (\<lambda>l. map (\<lambda>j. (g l, int j)) [0..<f l]) xs))"
proof (induction xs)
  case Nil
  then show ?case by simp
next
  case (Cons x xs)
  have d: "distinct (map (\<lambda>j. (g x, int j)) [0..<f x])"
    by (simp add: distinct_map inj_on_def)
  have "g l \<noteq> g x" if "l \<in> set xs" for l
    using Cons.prems that by (auto simp: inj_on_def)
  then have "set (map (\<lambda>j. (g x, int j)) [0..<f x])
             \<inter> set (concat (map (\<lambda>l. map (\<lambda>j. (g l, int j)) [0..<f l]) xs)) = {}"
    by fastforce
  moreover have "distinct (concat (map (\<lambda>l. map (\<lambda>j. (g l, int j)) [0..<f l]) xs))"
    using Cons by simp
  ultimately show ?case using d by simp
qed

lemma distinct_neurons_of: "distinct (neurons_of ls)"
  unfolding neurons_of_def by (rule distinct_indexed) (simp_all add: inj_on_def)

lemma set_neurons_of:
  "set (neurons_of ls) = {(int l, int j) |l j. 1 \<le> l \<and> l < length ls \<and> j < nat (ls ! l)}"
  by (auto simp: neurons_of_def)

lemma distinct_neurons_backward: "distinct (neurons_backward ls)"
proof -
  let ?rest = "concat (map (\<lambda>l. map (\<lambda>j. (int l + 1, int j)) [0..<nat (ls ! (l + 1))])
               (rev [0..<length ls - 2]))"
  have "distinct ?rest"
    by (rule distinct_indexed) (simp_all add: inj_on_def)
  moreover have "(int (length ls) - 1, 0) \<notin> set ?rest" by auto
  ultimately show ?thesis by (simp add: neurons_backward_def)
qed

lemma set_neurons_backward:
  assumes "2 \<le> length ls" and "ls ! (length ls - 1) = 1"
  shows "set (neurons_backward ls) = set (neurons_of ls)"
proof -
  let ?L = "length ls"
  have b: "set (neurons_backward ls) =
      insert (int ?L - 1, 0) {(int l + 1, int j) |l j. l < ?L - 2 \<and> j < nat (ls ! (l + 1))}"
    by (auto simp: neurons_backward_def)
  show ?thesis
  proof (intro set_eqI iffI)
    fix p assume "p \<in> set (neurons_backward ls)"
    then consider "p = (int ?L - 1, 0)"
      | l j where "p = (int l + 1, int j)" "l < ?L - 2" "j < nat (ls ! (l + 1))"
      unfolding b by blast
    then show "p \<in> set (neurons_of ls)"
    proof cases
      case 1
      have "p = (int (?L - 1), int 0)" using 1 assms(1) by (simp add: of_nat_diff)
      moreover have "1 \<le> ?L - 1" "?L - 1 < ?L" "0 < nat (ls ! (?L - 1))"
        using assms by simp_all
      ultimately show ?thesis unfolding set_neurons_of by blast
    next
      case 2
      have "p = (int (l + 1), int j)" using 2(1) by simp
      moreover have "1 \<le> l + 1" "l + 1 < ?L" using 2(2) by simp_all
      ultimately show ?thesis unfolding set_neurons_of using 2(3) by blast
    qed
  next
    fix p assume "p \<in> set (neurons_of ls)"
    then obtain l j where p: "p = (int l, int j)" and l: "1 \<le> l" "l < ?L" and j: "j < nat (ls ! l)"
      unfolding set_neurons_of by blast
    show "p \<in> set (neurons_backward ls)"
    proof (cases "l = ?L - 1")
      case True
      then have "j = 0" using j assms(2) by simp
      then have "p = (int ?L - 1, 0)" using p True assms(1) by (simp add: of_nat_diff)
      then show ?thesis unfolding b by simp
    next
      case False
      then have "l - 1 < ?L - 2" "l - 1 + 1 = l" using l by simp_all
      moreover have "p = (int (l - 1) + 1, int j)" using p l by simp
      ultimately show ?thesis unfolding b using j by force
    qed
  qed
qed

lemma distinct_row:
  "distinct ys \<Longrightarrow> distinct (concat (map (\<lambda>j. map (\<lambda>i. (c, int i, d, int j)) [0..<a]) ys))"
proof (induction ys)
  case Nil
  then show ?case by simp
next
  case (Cons y ys)
  have "distinct (map (\<lambda>i. (c, int i, d, int y)) [0..<a])"
    by (simp add: distinct_map inj_on_def)
  moreover have "set (map (\<lambda>i. (c, int i, d, int y)) [0..<a])
             \<inter> set (concat (map (\<lambda>j. map (\<lambda>i. (c, int i, d, int j)) [0..<a]) ys)) = {}"
    using Cons.prems by auto
  ultimately show ?case using Cons by simp
qed

lemma distinct_connections:
  "distinct xs \<Longrightarrow>
   distinct (concat (map (\<lambda>l. concat (map (\<lambda>j. map (\<lambda>i. (int l, int i, int l + 1, int j))
                                          [0..<a l]) [0..<b l])) xs))"
proof (induction xs)
  case Nil
  then show ?case by simp
next
  case (Cons x xs)
  let ?f = "\<lambda>l. concat (map (\<lambda>j. map (\<lambda>i. (int l, int i, int l + 1, int j)) [0..<a l]) [0..<b l])"
  have "distinct (?f x)" by (rule distinct_row) simp
  moreover have "set (?f x) \<inter> set (concat (map ?f xs)) = {}"
    using Cons.prems by auto
  ultimately show ?case using Cons by simp
qed

lemma distinct_connections_of: "distinct (connections_of ls)"
  unfolding connections_of_def by (rule distinct_connections) simp

lemma length_neurons_of: "length (neurons_of ls) = (\<Sum>l = 1..<length ls. nat (ls ! l))"
  by (simp add: neurons_of_def length_concat comp_def interv_sum_list_conv_sum_set_nat)

lemma length_connections_of:
  "length (connections_of ls) = (\<Sum>l = 0..<length ls - 1. nat (ls ! l) * nat (ls ! (l + 1)))"
  by (simp add: connections_of_def length_concat comp_def interv_sum_list_conv_sum_set_nat
      sum_list_triv mult.commute)

lemma forward_ignores_steps:
  "forward (s\<lparr>steps := old\<rparr>) input = forward s input"
  by (auto simp: forward_def split: sum.splits prod.splits list.splits)

lemma train_ignores_steps:
  "train (s\<lparr>steps := old\<rparr>) input target = train s input target"
proof -
  have "resetSteps (s\<lparr>steps := old\<rparr>) = (resetSteps s)\<lparr>steps := old\<rparr>"
    by (simp add: resetSteps_def)
  then show ?thesis by (simp add: train_def forward_ignores_steps)
qed

lemma forward_neurons_of:
  assumes "shape_invariant s" and "1 \<le> length (layers s)"
  shows "concat (map (\<lambda>k. map (\<lambda>j. [(int k + 1, int j)]) [0..<length (weights s ! k)])
                 [0..<length (weights s)])
         = map (\<lambda>p. [p]) (neurons_of (layers s))"
proof -
  note d = shape_invariantD [OF assms(1)]
  let ?L = "length (layers s)"
  have e: "Suc (?L - 1) = ?L" using assms(2) by simp
  have up: "[1..<?L] = map Suc [0..<?L - 1]"
    unfolding map_Suc_upt e by simp
  have "map (\<lambda>p. [p]) (neurons_of (layers s))
        = concat (map (\<lambda>k. map (\<lambda>j. [(int (Suc k), int j)]) [0..<nat (layers s ! Suc k)])
                    [0..<?L - 1])"
    unfolding neurons_of_def up by (simp add: map_concat comp_def)
  also have "\<dots> = concat (map (\<lambda>k. map (\<lambda>j. [(int k + 1, int j)]) [0..<length (weights s ! k)])
                    [0..<?L - 1])"
  proof (rule arg_cong [where f = concat], rule map_cong [OF refl])
    fix k assume "k \<in> set [0..<?L - 1]"
    then have "k + 1 < ?L" by simp
    from d(3) [OF this] have "length (weights s ! k) = nat (layers s ! Suc k)" by simp
    then show "map (\<lambda>j. [(int (Suc k), int j)]) [0..<nat (layers s ! Suc k)]
          = map (\<lambda>j. [(int k + 1, int j)]) [0..<length (weights s ! k)]"
      by (simp add: add.commute)
  qed
  finally show ?thesis using d(1) by simp
qed

lemma update_connections_of:
  assumes "shape_invariant s"
  shows "concat (map (\<lambda>m. concat (map (\<lambda>k. map (\<lambda>i. [(int m, int i, int m + 1, int k)])
                                          [0..<length (weights s ! m ! k)])
                                 [0..<length (weights s ! m)]))
               [0..<length (weights s)])
         = map (\<lambda>c. [c]) (connections_of (layers s))"
proof -
  note d = shape_invariantD [OF assms(1)]
  let ?L = "length (layers s)"
  have "map (\<lambda>c. [c]) (connections_of (layers s))
        = concat (map (\<lambda>m. concat (map (\<lambda>k. map (\<lambda>i. [(int m, int i, int m + 1, int k)])
                                          [0..<nat (layers s ! m)])
                                 [0..<nat (layers s ! (m + 1))]))
               [0..<?L - 1])"
    unfolding connections_of_def by (simp add: map_concat comp_def)
  also have "\<dots> = concat (map (\<lambda>m. concat (map (\<lambda>k. map (\<lambda>i. [(int m, int i, int m + 1, int k)])
                                          [0..<length (weights s ! m ! k)])
                                 [0..<length (weights s ! m)]))
               [0..<?L - 1])"
  proof (rule arg_cong [where f = concat], rule map_cong [OF refl])
    fix m assume "m \<in> set [0..<?L - 1]"
    then have m: "m + 1 < ?L" by simp
    have len: "length (weights s ! m) = nat (layers s ! (m + 1))" using d(3) [OF m] by simp
    have "map (\<lambda>k. map (\<lambda>i. [(int m, int i, int m + 1, int k)]) [0..<nat (layers s ! m)])
            [0..<nat (layers s ! (m + 1))]
          = map (\<lambda>k. map (\<lambda>i. [(int m, int i, int m + 1, int k)]) [0..<length (weights s ! m ! k)])
            [0..<length (weights s ! m)]"
      unfolding len
    proof (rule map_cong [OF refl])
      fix k assume "k \<in> set [0..<nat (layers s ! (m + 1))]"
      then have "weights s ! m ! k \<in> set (weights s ! m)" using len by simp
      from d(4) [OF m this] have "length (weights s ! m ! k) = nat (layers s ! m)"
        by simp
      then show "map (\<lambda>i. [(int m, int i, int m + 1, int k)]) [0..<nat (layers s ! m)]
            = map (\<lambda>i. [(int m, int i, int m + 1, int k)]) [0..<length (weights s ! m ! k)]"
        by simp
    qed
    then show "concat (map (\<lambda>k. map (\<lambda>i. [(int m, int i, int m + 1, int k)])
                                          [0..<nat (layers s ! m)])
                                 [0..<nat (layers s ! (m + 1))])
          = concat (map (\<lambda>k. map (\<lambda>i. [(int m, int i, int m + 1, int k)])
                                          [0..<length (weights s ! m ! k)])
                                 [0..<length (weights s ! m)])"
      by simp
  qed
  finally show ?thesis using d(1) by simp
qed

lemma backward_neurons_backward:
  assumes "length (weights s) = length (layers s) - 1"
  shows "[(int (length (layers s)) - 1, 0)] #
       concat (map (\<lambda>l. map (\<lambda>j. [(int l + 1, int j)]) [0..<nat (layers s ! (l + 1))])
                 (rev [0..<length (weights s) - 1]))
         = map (\<lambda>p. [p]) (neurons_backward (layers s))"
proof -
  have "length (layers s) - 1 - 1 = length (layers s) - 2" by simp
  then show ?thesis
    unfolding neurons_backward_def assms by (simp add: map_concat comp_def rev_map)
qed

text \<open>
  C6: after \<^verbatim>\<open>train(input, target)\<close> on a network of valid shape, the returned steps are
  the state's steps and do not depend on the steps the state held before; the
  \<^verbatim>\<open>forward_neuron\<close> steps, in order, are one for each neuron of the layers after the input
  layer, the \<^verbatim>\<open>backward_delta\<close> steps are one for each of the same neurons (in the order of
  the backward pass), and the \<^verbatim>\<open>weight_update\<close> steps are one for each weight; no neuron
  and no weight occurs twice, so the counts are the number of neurons and of weights.
\<close>

theorem train_trace_complete:
  assumes "train s input target = Inr ((r, sts), s')"
    and "shape_invariant s" and "valid_topology s"
  shows "sts = steps s' \<and>
     train (s\<lparr>steps := old\<rparr>) input target = Inr ((r, sts), s') \<and>
     map highlightNeurons (steps_of_type ''forward_neuron'' sts)
       = map (\<lambda>p. [p]) (neurons_of (layers s)) \<and>
     map highlightNeurons (steps_of_type ''backward_delta'' sts)
       = map (\<lambda>p. [p]) (neurons_backward (layers s)) \<and>
     map highlightConnections (steps_of_type ''weight_update'' sts)
       = map (\<lambda>c. [c]) (connections_of (layers s)) \<and>
     distinct (neurons_of (layers s)) \<and> distinct (neurons_backward (layers s)) \<and>
     set (neurons_backward (layers s)) = set (neurons_of (layers s)) \<and>
     distinct (connections_of (layers s)) \<and>
     length (steps_of_type ''forward_neuron'' sts) = (\<Sum>l = 1..<length (layers s). nat (layers s ! l)) \<and>
     length (steps_of_type ''backward_delta'' sts) = (\<Sum>l = 1..<length (layers s). nat (layers s ! l)) \<and>
     length (steps_of_type ''weight_update'' sts)
       = (\<Sum>l = 0..<length (layers s) - 1. nat (layers s ! l) * nat (layers s ! (l + 1)))"
proof -
  let ?ls = "layers s"
  from train_Inr [OF assms(1)] obtain out t where
    f: "forward (resetSteps s) input = Inr (out, t)" and b: "backward t target = Inr (r, s')"
    and sts: "sts = steps s'"
    by blast
  have inv: "shape_invariant (resetSteps s)"
    using assms(2) by (simp add: resetSteps_def cursor_update_shape)
  have rs: "weights (resetSteps s) = weights s" "layers (resetSteps s) = ?ls"
    by (simp_all add: resetSteps_def)
  note fk = forward_keeps [OF f]
  have tw: "weights t = weights s" "layers t = ?ls" using fk rs by simp_all
  have invt: "shape_invariant t" by (rule forward_shape_invariant [OF f inv])
  have L: "2 \<le> length ?ls" "last ?ls = 1" using assms(3) by (simp_all add: valid_topology_def)
  have lastl: "?ls ! (length ?ls - 1) = 1" by (rule last_layer [OF L])
  have nlen: "length (weights s) = length ?ls - 1" using shape_invariantD(1) [OF assms(2)] .
  note fs = forward_steps [OF f, unfolded rs] and bs = backward_steps [OF b, unfolded tw]
  have c1: "map highlightNeurons (steps_of_type ''forward_neuron'' sts)
       = map (\<lambda>p. [p]) (neurons_of ?ls)"
    unfolding sts bs(1) fs(1) by (rule forward_neurons_of [OF assms(2)]) (use L in simp)
  have c2: "map highlightNeurons (steps_of_type ''backward_delta'' sts)
       = map (\<lambda>p. [p]) (neurons_backward ?ls)"
    unfolding sts bs(2) fs(2) using backward_neurons_backward [OF nlen] by simp
  have c3: "map highlightConnections (steps_of_type ''weight_update'' sts)
       = map (\<lambda>c. [c]) (connections_of ?ls)"
    unfolding sts bs(3) fs(3) using update_connections_of [OF assms(2)] by simp
  have s1: "set (neurons_backward ?ls) = set (neurons_of ?ls)"
    by (rule set_neurons_backward [OF L(1) lastl])
  have "length (neurons_backward ?ls) = length (neurons_of ?ls)"
    using s1 distinct_neurons_backward [of ?ls] distinct_neurons_of [of ?ls]
    by (metis distinct_card)
  then have n2: "length (steps_of_type ''backward_delta'' sts)
                 = (\<Sum>l = 1..<length ?ls. nat (?ls ! l))"
    using arg_cong [OF c2, of length] by (simp add: length_neurons_of)
  have n1: "length (steps_of_type ''forward_neuron'' sts) = (\<Sum>l = 1..<length ?ls. nat (?ls ! l))"
    using arg_cong [OF c1, of length] by (simp add: length_neurons_of)
  have n3: "length (steps_of_type ''weight_update'' sts)
       = (\<Sum>l = 0..<length ?ls - 1. nat (?ls ! l) * nat (?ls ! (l + 1)))"
    using arg_cong [OF c3, of length] by (simp add: length_connections_of)
  have c0: "train (s\<lparr>steps := old\<rparr>) input target = Inr ((r, sts), s')"
    using assms(1) by (simp add: train_ignores_steps)
  from sts c0 c1 c2 c3 s1 n1 n2 n3 distinct_neurons_of [of ?ls] distinct_neurons_backward [of ?ls]
    distinct_connections_of [of ?ls]
  show ?thesis by blast
qed

theorem train_trace_complete_witness:
  "\<exists>r sts s'. train demo_network [1, 0] 1 = Inr ((r, sts), s') \<and>
     train (demo_network\<lparr>steps := [Complete [] []]\<rparr>) [1, 0] 1 = Inr ((r, sts), s') \<and>
     map highlightNeurons (steps_of_type ''forward_neuron'' sts) = [[(1, 0)], [(1, 1)], [(2, 0)]] \<and>
     map highlightNeurons (steps_of_type ''backward_delta'' sts) = [[(2, 0)], [(1, 0)], [(1, 1)]] \<and>
     map highlightConnections (steps_of_type ''weight_update'' sts) =
       [[(0, 0, 1, 0)], [(0, 1, 1, 0)], [(0, 0, 1, 1)], [(0, 1, 1, 1)], [(1, 0, 2, 0)],
        [(1, 1, 2, 0)]] \<and>
     length (steps_of_type ''forward_neuron'' sts) = 3 \<and>
     length (steps_of_type ''backward_delta'' sts) = 3 \<and>
     length (steps_of_type ''weight_update'' sts) = 6"
proof -
  have "\<exists>r s'. train demo_network [1, 0] 1 = Inr ((r, steps s'), s')"
    by (rule train_total [OF demo_shape]) (simp_all add: demo_layers)
  then obtain r s' where t: "train demo_network [1, 0] 1 = Inr ((r, steps s'), s')" by blast
  note th = train_trace_complete [OF t demo_shape demo_topology, of "[Complete [] []]",
      unfolded demo_layers demo_lists]
  have c1: "map highlightNeurons (steps_of_type ''forward_neuron'' (steps s'))
            = [[(1, 0)], [(1, 1)], [(2, 0)]]"
    and c2: "map highlightNeurons (steps_of_type ''backward_delta'' (steps s'))
            = [[(2, 0)], [(1, 0)], [(1, 1)]]"
    and c3: "map highlightConnections (steps_of_type ''weight_update'' (steps s')) =
       [[(0, 0, 1, 0)], [(0, 1, 1, 0)], [(0, 0, 1, 1)], [(0, 1, 1, 1)], [(1, 0, 2, 0)],
        [(1, 1, 2, 0)]]"
    and c0: "train (demo_network\<lparr>steps := [Complete [] []]\<rparr>) [1, 0] 1
             = Inr ((r, steps s'), s')"
    using th by simp_all
  have n: "length (steps_of_type ''forward_neuron'' (steps s')) = 3"
    "length (steps_of_type ''backward_delta'' (steps s')) = 3"
    "length (steps_of_type ''weight_update'' (steps s')) = 6"
    using arg_cong [OF c1, of length] arg_cong [OF c2, of length] arg_cong [OF c3, of length]
    by simp_all
  show ?thesis
    by (rule exI [of _ r], rule exI [of _ "steps s'"], rule exI [of _ s'])
       (intro conjI t c0 c1 c2 c3 n)
qed

section \<open>The accessor\<close>

lemma zero_network_fields:
  "layers zero_network = [2, 2, 1]"
  "weights zero_network = [[[0, 0], [0, 0]], [[0, 0]]]"
  "biases zero_network = [[0, 0], [0]]"
  "activations zero_network = []" "preActivations zero_network = []"
  "deltas zero_network = []" "weightGradients zero_network = []"
  "previousWeights zero_network = [[[0, 0], [0, 0]], [[0, 0]]]"
  by (simp_all add: zero_network_def new_NeuralNetwork_def initializeNetwork_def demo_config_def
      or_int_def Let_def upt_rec eval_nat_numeral)

lemma zero_engine:
  "engine_of zero_network =
     \<lparr>heap = [[Num 2, Num 2, Num 1],
              [Num 0, Num 0], [Num 0, Num 0], [Ref 1, Ref 2], [Num 0, Num 0], [Ref 4],
              [Ref 3, Ref 5],
              [Num 0, Num 0], [Num 0], [Ref 7, Ref 8],
              [], [], [], [],
              [Num 0, Num 0], [Num 0, Num 0], [Ref 14, Ref 15], [Num 0, Num 0], [Ref 17],
              [Ref 16, Ref 18]],
      ref_layers = Ref 0, ref_weights = Ref 6, ref_biases = Ref 9, ref_activations = Ref 10,
      ref_preActivations = Ref 11, ref_deltas = Ref 12, ref_weightGradients = Ref 13,
      ref_previousWeights = Ref 19\<rparr>"
  by (simp add: engine_of_def zero_network_fields new_array_def new_tensor_def new_matrix_def
      new_vector_def new_number_def new_int_def new_nullable_def alloc_def)

lemma extends_refl: "extends h h"
  by (simp add: extends_def)

lemma extends_trans: "extends h h1 \<Longrightarrow> extends h1 h2 \<Longrightarrow> extends h h2"
  by (auto simp: extends_def)

lemma storedD:
  assumes "stored w r"
  shows "w h x = (v, h') \<Longrightarrow> extends h h' \<and> r h' v = Some x"
    and "extends h h' \<Longrightarrow> r h u = Some y \<Longrightarrow> r h' u = Some y"
proof -
  from assms have a: "\<And>h x. extends h (snd (w h x)) \<and> r (snd (w h x)) (fst (w h x)) = Some x"
    and b: "\<And>h h' v x. extends h h' \<Longrightarrow> r h v = Some x \<Longrightarrow> r h' v = Some x"
    unfolding stored_def by blast+
  show "w h x = (v, h') \<Longrightarrow> extends h h' \<and> r h' v = Some x"
    using a [of h x] by simp
  show "extends h h' \<Longrightarrow> r h u = Some y \<Longrightarrow> r h' u = Some y"
    by (rule b)
qed

lemma storedI:
  assumes "\<And>h x v h'. w h x = (v, h') \<Longrightarrow> extends h h' \<and> r h' v = Some x"
    and "\<And>h h' v x. extends h h' \<Longrightarrow> r h v = Some x \<Longrightarrow> r h' v = Some x"
  shows "stored w r"
  unfolding stored_def
proof (intro conjI allI impI)
  fix h x
  show "extends h (snd (w h x))" "r (snd (w h x)) (fst (w h x)) = Some x"
    using assms(1) [of h x "fst (w h x)" "snd (w h x)"] by simp_all
next
  fix h h' v x assume "extends h h'" "r h v = Some x"
  then show "r h' v = Some x" by (rule assms(2))
qed

lemma stored_number: "stored new_number read_number"
  by (rule storedI) (auto simp: new_number_def read_number_def extends_refl)

lemma stored_int: "stored new_int read_int"
  by (rule storedI) (auto simp: new_int_def read_int_def extends_refl)

lemma new_array_Ref: "new_array w h xs = (v, h') \<Longrightarrow> \<exists>a. v = Ref a"
  by (auto simp: new_array_def alloc_def split: prod.splits)

lemma stored_nullable:
  assumes "stored (new_array w) r"
  shows "stored (new_nullable (new_array w)) (read_nullable r)"
proof (rule storedI)
  fix h x v h' assume a: "new_nullable (new_array w) h x = (v, h')"
  show "extends h h' \<and> read_nullable r h' v = Some x"
  proof (cases x)
    case None
    then show ?thesis using a by (simp add: new_nullable_def read_nullable_def extends_refl)
  next
    case (Some y)
    then have n: "new_array w h y = (v, h')" using a by (simp add: new_nullable_def)
    from new_array_Ref [OF n] obtain b where "v = Ref b" ..
    with storedD(1) [OF assms n] Some show ?thesis
      by (simp add: read_nullable_def)
  qed
next
  fix h h' v x assume e: "extends h h'" and r: "read_nullable r h v = Some x"
  show "read_nullable r h' v = Some x"
  proof (cases "v = Null")
    case True
    then show ?thesis using r by (simp add: read_nullable_def)
  next
    case False
    then have rn: "read_nullable r h v = map_option Some (r h v)"
      "read_nullable r h' v = map_option Some (r h' v)"
      by (cases v; simp add: read_nullable_def)+
    from r rn(1) obtain y where "r h v = Some y" "x = Some y" by auto
    with storedD(2) [OF assms e] rn(2) show ?thesis by simp
  qed
qed

lemma read_all_mono:
  "(\<And>v x. f v = Some x \<Longrightarrow> g v = Some x) \<Longrightarrow> read_all f vs = Some xs \<Longrightarrow>
   read_all g vs = Some xs"
proof (induction vs arbitrary: xs)
  case Nil
  then show ?case by simp
next
  case (Cons v vs)
  from Cons.prems(2) obtain x xs' where
    "f v = Some x" "read_all f vs = Some xs'" "xs = x # xs'"
    by (auto split: option.splits)
  with Cons.IH [OF Cons.prems(1)] Cons.prems(1) show ?case by simp
qed

lemma read_array_mono:
  assumes "\<And>v x. r h v = Some x \<Longrightarrow> r h' v = Some x" and "extends h h'"
    and "read_array r h v = Some xs"
  shows "read_array r h' v = Some xs"
proof -
  from assms(3) obtain a where v: "v = Ref a" and a: "a < length h"
    and ra: "read_all (r h) (h ! a) = Some xs"
    by (cases v) (auto simp: read_array_def split: if_splits)
  from assms(2) obtain k where h': "h' = h @ k" by (auto simp: extends_def)
  have "read_all (r h') (h ! a) = Some xs"
    by (rule read_all_mono [where f = "r h" and g = "r h'", OF assms(1) ra])
  then show ?thesis using v a h' by (simp add: read_array_def nth_append)
qed

lemma alloc_all_stored:
  assumes "stored w r"
  shows "alloc_all w h xs = (vs, h') \<Longrightarrow> extends h h' \<and> read_all (r h') vs = Some xs"
proof (induction xs arbitrary: h vs h')
  case Nil
  then show ?case by (simp add: extends_refl)
next
  case (Cons x xs)
  obtain v h1 where w: "w h x = (v, h1)" by (cases "w h x")
  obtain vs' h2 where r: "alloc_all w h1 xs = (vs', h2)" by (cases "alloc_all w h1 xs")
  from Cons.prems w r have res: "vs = v # vs'" "h' = h2" by simp_all
  note a = storedD(1) [OF assms w]
  note b = Cons.IH [OF r]
  have "r h2 v = Some x" using storedD(2) [OF assms] a b by blast
  then show ?case using a b res extends_trans by auto
qed

lemma stored_array:
  assumes "stored w r"
  shows "stored (new_array w) (read_array r)"
proof (rule storedI)
  fix h xs v h' assume n: "new_array w h xs = (v, h')"
  obtain vs h1 where a: "alloc_all w h xs = (vs, h1)" by (cases "alloc_all w h xs")
  with n have v: "v = Ref (length h1)" and h': "h' = h1 @ [vs]"
    by (simp_all add: new_array_def alloc_def)
  note s = alloc_all_stored [OF assms a]
  have e1: "extends h1 h'" using h' by (auto simp: extends_def)
  have m: "\<And>u y. r h1 u = Some y \<Longrightarrow> r h' u = Some y"
    by (rule storedD(2) [OF assms e1])
  have "read_all (r h') vs = Some xs"
    by (rule read_all_mono [where f = "r h1" and g = "r h'", OF m s [THEN conjunct2]])
  then have "read_array r h' v = Some xs" using v h' by (simp add: read_array_def)
  moreover have "extends h h'" using s e1 extends_trans by blast
  ultimately show "extends h h' \<and> read_array r h' v = Some xs" by simp
next
  fix h h' v xs assume e: "extends h h'" and ra: "read_array r h v = Some xs"
  have m: "\<And>u y. r h u = Some y \<Longrightarrow> r h' u = Some y"
    by (rule storedD(2) [OF assms e])
  show "read_array r h' v = Some xs"
    by (rule read_array_mono [where r = r and h = h, OF m e ra])
qed

lemma stored_vector: "stored new_vector read_vector"
  unfolding new_vector_def read_vector_def by (rule stored_array [OF stored_number])

lemma stored_matrix: "stored new_matrix read_matrix"
  unfolding new_matrix_def read_matrix_def by (rule stored_array [OF stored_vector])

lemma stored_tensor: "stored new_tensor read_tensor"
  unfolding new_tensor_def read_tensor_def by (rule stored_array [OF stored_matrix])

text \<open>
  C9, as stated: \<^verbatim>\<open>getNetworkData\<close> returns deep copies or immutable views, so that no mutation
  through the returned structure can change the engine's state. This fails: the returned
  object holds the engine's own arrays. On the network constructed with all draws \<open>1/2\<close>,
  the assignment \<^verbatim>\<open>data.weights[0][0][0] = 7\<close> through the returned object changes the engine's
  weights from 0 to 7.
\<close>

theorem getNetworkData_alias_counterexample:
  "(case assign3 (heap (engine_of zero_network))
           (nd_weights (getNetworkData (engine_of zero_network))) 0 0 0 (Num 7) of
      None \<Rightarrow> False
    | Some h' \<Rightarrow>
        read_tensor (heap (engine_of zero_network)) (ref_weights (engine_of zero_network))
          = Some [[[0, 0], [0, 0]], [[0, 0]]] \<and>
        read_tensor h' (ref_weights (engine_of zero_network))
          = Some [[[7, 0], [0, 0]], [[0, 0]]]) \<and>
   \<not> (\<forall>l j i v h'.
         assign3 (heap (engine_of zero_network))
           (nd_weights (getNetworkData (engine_of zero_network))) l j i v = Some h' \<longrightarrow>
         read_tensor h' (ref_weights (engine_of zero_network))
           = read_tensor (heap (engine_of zero_network)) (ref_weights (engine_of zero_network)))"
proof -
  let ?e = "engine_of zero_network"
  have a: "(case assign3 (heap ?e) (nd_weights (getNetworkData ?e)) 0 0 0 (Num 7) of
      None \<Rightarrow> False
    | Some h' \<Rightarrow>
        read_tensor (heap ?e) (ref_weights ?e) = Some [[[0, 0], [0, 0]], [[0, 0]]] \<and>
        read_tensor h' (ref_weights ?e) = Some [[[7, 0], [0, 0]], [[0, 0]]])"
    by (simp add: zero_engine getNetworkData_def assign3_def element_def assign_def
      read_tensor_def read_matrix_def read_vector_def read_array_def read_number_def)
  then obtain h' where h': "assign3 (heap ?e) (nd_weights (getNetworkData ?e)) 0 0 0 (Num 7) = Some h'"
    and r: "read_tensor (heap ?e) (ref_weights ?e) = Some [[[0, 0], [0, 0]], [[0, 0]]]"
      "read_tensor h' (ref_weights ?e) = Some [[[7, 0], [0, 0]], [[0, 0]]]"
    by (auto split: option.splits)
  have "read_tensor h' (ref_weights ?e) \<noteq> read_tensor (heap ?e) (ref_weights ?e)"
    unfolding r by simp
  with h' have "\<not> (\<forall>l j i v h'.
         assign3 (heap ?e) (nd_weights (getNetworkData ?e)) l j i v = Some h' \<longrightarrow>
         read_tensor h' (ref_weights ?e) = read_tensor (heap ?e) (ref_weights ?e))"
    by blast
  with a show ?thesis by blast
qed

text \<open>
  C9, amended: \<^verbatim>\<open>getNetworkData\<close> returns views of the topology, weights, biases,
  activations, preActivations, deltas, weightGradients and previousWeights that read as the
  engine's current values; they are the references the engine itself holds, not copies.
\<close>

theorem getNetworkData_views:
  "nd_layers (getNetworkData (engine_of s)) = ref_layers (engine_of s) \<and>
   nd_weights (getNetworkData (engine_of s)) = ref_weights (engine_of s) \<and>
   nd_biases (getNetworkData (engine_of s)) = ref_biases (engine_of s) \<and>
   nd_activations (getNetworkData (engine_of s)) = ref_activations (engine_of s) \<and>
   nd_preActivations (getNetworkData (engine_of s)) = ref_preActivations (engine_of s) \<and>
   nd_deltas (getNetworkData (engine_of s)) = ref_deltas (engine_of s) \<and>
   nd_weightGradients (getNetworkData (engine_of s)) = ref_weightGradients (engine_of s) \<and>
   nd_previousWeights (getNetworkData (engine_of s)) = ref_previousWeights (engine_of s) \<and>
   read_array read_int (heap (engine_of s)) (nd_layers (getNetworkData (engine_of s)))
     = Some (layers s) \<and>
   read_tensor (heap (engine_of s)) (nd_weights (getNetworkData (engine_of s)))
     = Some (weights s) \<and>
   read_matrix (heap (engine_of s)) (nd_biases (getNetworkData (engine_of s)))
     = Some (biases s) \<and>
   read_matrix (heap (engine_of s)) (nd_activations (getNetworkData (engine_of s)))
     = Some (activations s) \<and>
   read_array (read_nullable read_vector) (heap (engine_of s))
       (nd_preActivations (getNetworkData (engine_of s)))
     = Some (preActivations s) \<and>
   read_matrix (heap (engine_of s)) (nd_deltas (getNetworkData (engine_of s)))
     = Some (deltas s) \<and>
   read_tensor (heap (engine_of s)) (nd_weightGradients (getNetworkData (engine_of s)))
     = Some (weightGradients s) \<and>
   read_tensor (heap (engine_of s)) (nd_previousWeights (getNetworkData (engine_of s)))
     = Some (previousWeights s)"
proof -
  note sl = stored_array [OF stored_int]
  have sv: "stored (new_array new_number) read_vector"
    using stored_vector by (simp add: new_vector_def)
  have sp0: "stored (new_nullable new_vector) (read_nullable read_vector)"
    unfolding new_vector_def by (rule stored_nullable [OF sv])
  note sp = stored_array [OF sp0]
  obtain r1 h1 where a1: "new_array new_int [] (layers s) = (r1, h1)"
    by (cases "new_array new_int [] (layers s)")
  obtain r2 h2 where a2: "new_tensor h1 (weights s) = (r2, h2)"
    by (cases "new_tensor h1 (weights s)")
  obtain r3 h3 where a3: "new_matrix h2 (biases s) = (r3, h3)"
    by (cases "new_matrix h2 (biases s)")
  obtain r4 h4 where a4: "new_matrix h3 (activations s) = (r4, h4)"
    by (cases "new_matrix h3 (activations s)")
  obtain r5 h5 where a5: "new_array (new_nullable new_vector) h4 (preActivations s) = (r5, h5)"
    by (cases "new_array (new_nullable new_vector) h4 (preActivations s)")
  obtain r6 h6 where a6: "new_matrix h5 (deltas s) = (r6, h6)"
    by (cases "new_matrix h5 (deltas s)")
  obtain r7 h7 where a7: "new_tensor h6 (weightGradients s) = (r7, h7)"
    by (cases "new_tensor h6 (weightGradients s)")
  obtain r8 h8 where a8: "new_tensor h7 (previousWeights s) = (r8, h8)"
    by (cases "new_tensor h7 (previousWeights s)")
  have e: "engine_of s =
        \<lparr>heap = h8, ref_layers = r1, ref_weights = r2, ref_biases = r3, ref_activations = r4,
         ref_preActivations = r5, ref_deltas = r6, ref_weightGradients = r7,
         ref_previousWeights = r8\<rparr>"
    by (simp add: engine_of_def a1 a2 a3 a4 a5 a6 a7 a8)
  note s1 = storedD(1) [OF sl a1] and s2 = storedD(1) [OF stored_tensor a2]
    and s3 = storedD(1) [OF stored_matrix a3] and s4 = storedD(1) [OF stored_matrix a4]
    and s5 = storedD(1) [OF sp a5] and s6 = storedD(1) [OF stored_matrix a6]
    and s7 = storedD(1) [OF stored_tensor a7] and s8 = storedD(1) [OF stored_tensor a8]
  have x8: "extends h7 h8" using s8 by simp
  have x7: "extends h6 h8" using s7 x8 extends_trans by blast
  have x6: "extends h5 h8" using s6 x7 extends_trans by blast
  have x5: "extends h4 h8" using s5 x6 extends_trans by blast
  have x4: "extends h3 h8" using s4 x5 extends_trans by blast
  have x3: "extends h2 h8" using s3 x4 extends_trans by blast
  have x2: "extends h1 h8" using s2 x3 extends_trans by blast
  have c1: "read_array read_int h8 r1 = Some (layers s)"
    by (rule storedD(2) [OF sl x2]) (use s1 in simp)
  have c2: "read_tensor h8 r2 = Some (weights s)"
    by (rule storedD(2) [OF stored_tensor x3]) (use s2 in simp)
  have c3: "read_matrix h8 r3 = Some (biases s)"
    by (rule storedD(2) [OF stored_matrix x4]) (use s3 in simp)
  have c4: "read_matrix h8 r4 = Some (activations s)"
    by (rule storedD(2) [OF stored_matrix x5]) (use s4 in simp)
  have c5: "read_array (read_nullable read_vector) h8 r5 = Some (preActivations s)"
    by (rule storedD(2) [OF sp x6]) (use s5 in simp)
  have c6: "read_matrix h8 r6 = Some (deltas s)"
    by (rule storedD(2) [OF stored_matrix x7]) (use s6 in simp)
  have c7: "read_tensor h8 r7 = Some (weightGradients s)"
    by (rule storedD(2) [OF stored_tensor x8]) (use s7 in simp)
  have c8: "read_tensor h8 r8 = Some (previousWeights s)"
    using s8 by simp
  show ?thesis
    unfolding e getNetworkData_def using c1 c2 c3 c4 c5 c6 c7 c8 by simp
qed

end
